theory Spec2Isabelle
  imports Main "HOL-Library.Sublist"
begin

section \<open>Constants of \<open>scripts/script.js\<close>\<close>

definition ITEMS_PER_PAGE :: nat where
  "ITEMS_PER_PAGE = 6"

definition MAX_CONCURRENT_REQUESTS :: nat where
  "MAX_CONCURRENT_REQUESTS = 3"

definition MIN_SCORE_LATEST :: int where
  "MIN_SCORE_LATEST = 0"

definition IMAGES :: "string list" where
  "IMAGES = [''../assets/img-black.png'', ''../assets/img-green.png'', ''../assets/img-white.png'']"

section \<open>Data\<close>

text \<open>
  The decoded record of one story. \<open>id\<close> and \<open>type\<close> are always sent by the item
  endpoint; a field that may be missing from the JSON object (\<open>undefined\<close> when the
  script reads it) is an \<open>option\<close>.
\<close>

record item =
  item_id :: nat
  item_type :: string
  item_title :: "string option"
  item_url :: "string option"
  item_time :: "int option"
  item_score :: "int option"

text \<open>The two feeds, each with its own globals, callbacks and DOM surface.\<close>

datatype feed = Best | Latest

text \<open>
  The exceptions of the modelled code: a method called on \<open>undefined\<close>, \<open>fetch\<close> rejecting,
  the \<open>Error\<close> the script throws itself on a response that is not \<open>ok\<close>, and \<open>json()\<close> rejecting.
\<close>

datatype js_error = TypeError | NetworkError | ApiError | SyntaxError

text \<open>The URLs the script requests.\<close>

datatype request = BEST_NEWS_API | LATEST_NEWS_API | ITEM_API nat

text \<open>
  What the transport does with one request: \<open>fetch(url)\<close> rejects, or it resolves with a
  response whose \<open>ok\<close> flag is given and whose \<open>json()\<close> either rejects or decodes to a value.
\<close>

datatype 'a payload = Undecodable | Json 'a

datatype 'a response = Rejected | Response bool "'a payload"

text \<open>
  An async function that awaits the transport once: the request it issues when it is called,
  and the value its promise settles with, as a function of what the transport answers.
\<close>

type_synonym 'a fetching = "request \<times> ('a response \<Rightarrow> 'a)"

text \<open>
  A child appended to \<open>.gallery\<close> or \<open>.list\<close>: the link target, the image of a gallery entry,
  the escaped title and the timestamp handed to \<open>formatRelativeTime\<close> (the text made from it
  depends on the clock and is not modelled, nor is the host name shown in the list).
\<close>

record node =
  node_href :: "string option"
  node_image :: "string option"
  node_title :: string
  node_time :: "int option"

section \<open>Utility functions\<close>

definition getImageByID :: "nat \<Rightarrow> string" where
  "getImageByID ident = (let hash = ident mod length IMAGES in IMAGES ! hash)"

fun escapeChar :: "char \<Rightarrow> string" where
  "escapeChar c =
     (if c = CHR ''&'' then ''&amp;''
      else if c = CHR ''<'' then ''&lt;''
      else if c = CHR ''>'' then ''&gt;''
      else if c = CHR 0x22 then ''&quot;''
      else if c = CHR 0x27 then ''&#039;''
      else [c])"

text \<open>\<open>text.replace(...)\<close> raises a TypeError when \<open>text\<close> is \<open>undefined\<close>.\<close>

definition escapeHTML :: "string option \<Rightarrow> js_error + string" where
  "escapeHTML text =
     (case text of
        None \<Rightarrow> Inl TypeError
      | Some t \<Rightarrow> Inr (concat (map escapeChar t)))"

text \<open>\<open>ids.slice(a, b)\<close> for \<open>0 \<le> a \<le> b\<close>: silently truncated at the end of the list.\<close>

definition slice :: "'a list \<Rightarrow> nat \<Rightarrow> nat \<Rightarrow> 'a list" where
  "slice xs a b = take (b - a) (drop a xs)"

text \<open>JavaScript truthiness of an optional string: \<open>undefined\<close> and \<open>""\<close> are falsy.\<close>

definition truthy :: "string option \<Rightarrow> bool" where
  "truthy s = (case s of None \<Rightarrow> False | Some u \<Rightarrow> u \<noteq> [])"

section \<open>API client\<close>

text \<open>
  The body of the \<open>try\<close> block, the same in \<open>fetchFromAPI\<close> and \<open>fetchItemDetails\<close>:
  \<open>const res = await fetch(url); if (!res.ok) throw new Error(...); return await res.json();\<close>
\<close>

definition try_body :: "'a response \<Rightarrow> js_error + 'a" where
  "try_body res =
     (case res of
        Rejected \<Rightarrow> Inl NetworkError
      | Response ok body \<Rightarrow>
          (if \<not> ok then Inl ApiError
           else case body of Undecodable \<Rightarrow> Inl SyntaxError | Json v \<Rightarrow> Inr v))"

text \<open>\<open>fetchFromAPI\<close>: one request; the \<open>catch\<close> branch logs and returns \<open>[]\<close>.\<close>

definition fetchFromAPI :: "request \<Rightarrow> (nat list) fetching" where
  "fetchFromAPI url =
     (url, \<lambda>res. case try_body res of Inl error \<Rightarrow> [] | Inr v \<Rightarrow> v)"

text \<open>
  \<open>fetchItemDetails\<close>: one request; the \<open>catch\<close> branch logs and returns \<open>null\<close> (here
  \<open>None\<close>). The endpoint itself answers \<open>null\<close> for an unknown id, so the decoded value is an
  \<open>item option\<close>.
\<close>

definition fetchItemDetails :: "nat \<Rightarrow> (item option) fetching" where
  "fetchItemDetails ident =
     (ITEM_API ident, \<lambda>res. case try_body res of Inl error \<Rightarrow> None | Inr v \<Rightarrow> v)"

section \<open>Batch fetcher\<close>

text \<open>
  An async function runs from its call to its first \<open>await\<close>, and from the settling of what
  it awaits to the next \<open>await\<close> or to its end, with nothing of the page running in
  between. \<open>fetchItemsWithConcurrency\<close> is modelled by these stretches: the call up to the
  first \<open>await Promise.all\<close> (\<open>fetchItemsWithConcurrency\<close>, \<open>loop_from\<close>), an answer of the
  transport settling one promise of the chunk (\<open>deliver\<close>), and the stretch after the last
  promise of the chunk has settled (\<open>resume\<close>). The DOM elements the script looks up are
  taken to exist.
\<close>

text \<open>
  What \<open>fetchItemsWithConcurrency\<close> does to the outside, in the order it does it: a request
  sent, the promise of a request settling with its value, \<open>onItemFetched\<close> called on an item
  with what the call did (returned a boolean or raised), \<open>onBatchComplete\<close> called with the
  count.
\<close>

datatype call =
    Fetch request
  | Resolved request "item option"
  | OnItem item "js_error + bool"
  | OnDone nat

text \<open>
  The callbacks are closures over the script's globals and the DOM; as functions they take
  that state and return it. \<open>onItemFetched\<close> may raise.
\<close>

type_synonym 's onItem = "item \<Rightarrow> 's \<Rightarrow> (js_error + bool) \<times> 's"
type_synonym 's onDone = "nat \<Rightarrow> 's \<Rightarrow> 's"

text \<open>A promise of \<open>batchPromises\<close>: still waiting for the answer to its request, or settled.\<close>

datatype promise = Pending request "(item option) response \<Rightarrow> item option" | Settled "item option"

text \<open>
  The locals of a call of \<open>fetchItemsWithConcurrency\<close> suspended at
  \<open>await Promise.all(batchPromises)\<close>.
\<close>

record task =
  task_ids :: "nat list"
  task_i :: nat
  validItemsCount :: nat
  batchPromises :: "promise list"

text \<open>Where a call of the async function stands.\<close>

datatype status = Awaiting task | Returned | Threw js_error

text \<open>
  \<open>Promise.all\<close>: fulfilled, with the values in the order of the promises, once every one of
  them has settled (none of them rejects: \<open>fetchItemDetails\<close> catches everything).
\<close>

fun promise_all :: "promise list \<Rightarrow> item option list option" where
  "promise_all [] = Some []"
| "promise_all (Pending rq h # ps) = None"
| "promise_all (Settled v # ps) = map_option ((#) v) (promise_all ps)"

text \<open>
  \<open>batchItems.forEach(item => { if (item && onItemFetched(item)) validItemsCount++; })\<close>:
  the new count or the exception, the state the callbacks leave, and the calls made.
\<close>

fun forEach :: "'s onItem \<Rightarrow> item option list \<Rightarrow> nat \<Rightarrow> 's \<Rightarrow> (js_error + nat) \<times> 's \<times> call list" where
  "forEach onItemFetched [] n u = (Inr n, u, [])"
| "forEach onItemFetched (None # batchItems) n u = forEach onItemFetched batchItems n u"
| "forEach onItemFetched (Some it # batchItems) n u =
     (case onItemFetched it u of
        (Inl e, u') \<Rightarrow> (Inl e, u', [OnItem it (Inl e)])
      | (Inr b, u') \<Rightarrow>
          (case forEach onItemFetched batchItems (if b then n + 1 else n) u' of
             (r, u'', cs) \<Rightarrow> (r, u'', OnItem it (Inr b) # cs)))"

text \<open>
  The head of the \<open>for\<close> loop at index \<open>i\<close> with \<open>validItemsCount = n\<close>: either the next chunk
  is cut, its requests are sent (\<open>batchIds.map(id => fetchItemDetails(id))\<close>) and the call
  suspends, or the loop is over, \<open>onBatchComplete\<close> is called and the function returns.
\<close>

definition loop_from :: "'s onDone \<Rightarrow> nat list \<Rightarrow> nat \<Rightarrow> nat \<Rightarrow> 's \<Rightarrow> call list \<Rightarrow> status \<times> 's \<times> call list" where
  "loop_from onBatchComplete ids i n u tr =
     (if i < length ids then
        let batchIds = slice ids i (i + MAX_CONCURRENT_REQUESTS);
            batchPromises = map (\<lambda>ident. case fetchItemDetails ident of (rq, h) \<Rightarrow> Pending rq h) batchIds
        in (Awaiting \<lparr>task_ids = ids, task_i = i, validItemsCount = n, batchPromises = batchPromises\<rparr>,
            u, tr @ map (\<lambda>ident. Fetch (fst (fetchItemDetails ident))) batchIds)
      else (Returned, onBatchComplete n u, tr @ [OnDone n]))"

text \<open>The call itself: \<open>validItemsCount = 0\<close>, \<open>i = 0\<close>, up to the first \<open>await\<close>.\<close>

definition fetchItemsWithConcurrency ::
  "nat list \<Rightarrow> 's onItem \<Rightarrow> 's onDone \<Rightarrow> 's \<Rightarrow> call list \<Rightarrow> status \<times> 's \<times> call list" where
  "fetchItemsWithConcurrency ids onItemFetched onBatchComplete u tr =
     loop_from onBatchComplete ids 0 0 u tr"

text \<open>
  After \<open>Promise.all\<close> is fulfilled with \<open>batchItems\<close>: the \<open>forEach\<close>, then \<open>i += 3\<close> and the
  loop head again. An exception of a callback leaves the function.
\<close>

definition resume :: "'s onItem \<Rightarrow> 's onDone \<Rightarrow> task \<Rightarrow> item option list \<Rightarrow> 's \<Rightarrow> call list \<Rightarrow> status \<times> 's \<times> call list" where
  "resume onItemFetched onBatchComplete t batchItems u tr =
     (case forEach onItemFetched batchItems (validItemsCount t) u of
        (Inl e, u', cs) \<Rightarrow> (Threw e, u', tr @ cs)
      | (Inr n, u', cs) \<Rightarrow>
          loop_from onBatchComplete (task_ids t) (task_i t + MAX_CONCURRENT_REQUESTS) n u' (tr @ cs))"

text \<open>
  The transport answers the request of the \<open>j\<close>-th promise of the chunk with \<open>res\<close>. Nothing
  happens if there is no such pending promise. Otherwise it settles, and if it was the last
  one pending, the suspended call goes on.
\<close>

definition deliver ::
  "'s onItem \<Rightarrow> 's onDone \<Rightarrow> nat \<Rightarrow> (item option) response \<Rightarrow> status \<times> 's \<times> call list \<Rightarrow> status \<times> 's \<times> call list" where
  "deliver onItemFetched onBatchComplete j res = (\<lambda>(st, u, tr).
     case st of
       Awaiting t \<Rightarrow>
         (if j < length (batchPromises t) then
            (case batchPromises t ! j of
               Settled v \<Rightarrow> (st, u, tr)
             | Pending rq h \<Rightarrow>
                 let t' = t\<lparr>batchPromises := (batchPromises t)[j := Settled (h res)]\<rparr>;
                     tr' = tr @ [Resolved rq (h res)]
                 in (case promise_all (batchPromises t') of
                       None \<Rightarrow> (Awaiting t', u, tr')
                     | Some batchItems \<Rightarrow> resume onItemFetched onBatchComplete t' batchItems u tr'))
          else (st, u, tr))
     | Returned \<Rightarrow> (st, u, tr)
     | Threw e \<Rightarrow> (st, u, tr))"

section \<open>Pagination controllers\<close>

text \<open>
  The globals of one feed (\<open>bestNewsIds\<close>, \<open>bestNewsPage\<close>, \<open>bestNewsLoading\<close>, or the three
  of the latest feed) with the part of the DOM the feed writes: the children of its surface
  and whether its load button is displayed (\<open>'block'\<close>) or not (\<open>'none'\<close>). The two feeds
  share none of these.
\<close>

record controller =
  newsIds :: "nat list"
  newsPage :: nat
  newsLoading :: bool
  surface :: "node list"
  loadBtn :: bool

text \<open>
  The render functions build the node first, which evaluates \<open>escapeHTML(item.title)\<close>, and
  append it last: an exception leaves the surface as it was.
\<close>

definition renderBestNewsItem :: "item \<Rightarrow> controller \<Rightarrow> js_error option \<times> controller" where
  "renderBestNewsItem it g =
     (let imageUrl = getImageByID (item_id it) in
      case escapeHTML (item_title it) of
        Inl e \<Rightarrow> (Some e, g)
      | Inr title \<Rightarrow>
          (None, g\<lparr>surface := surface g @
             [\<lparr>node_href = item_url it, node_image = Some imageUrl,
               node_title = title, node_time = item_time it\<rparr>]\<rparr>))"

definition renderLatestNewsItem :: "item \<Rightarrow> controller \<Rightarrow> js_error option \<times> controller" where
  "renderLatestNewsItem it g =
     (case escapeHTML (item_title it) of
        Inl e \<Rightarrow> (Some e, g)
      | Inr title \<Rightarrow>
          (None, g\<lparr>surface := surface g @
             [\<lparr>node_href = item_url it, node_image = None,
               node_title = title, node_time = item_time it\<rparr>]\<rparr>))"

text \<open>
  The condition of the \<open>if\<close> in the two \<open>onItemFetched\<close> closures. \<open>item.url\<close> is tested for
  truthiness, and \<open>item.score || 0\<close> is \<open>0\<close> for a missing score.
\<close>

fun valid :: "feed \<Rightarrow> item \<Rightarrow> bool" where
  "valid Best it = (item_type it = ''story'' \<and> truthy (item_url it))"
| "valid Latest it =
     (item_type it = ''story'' \<and> truthy (item_url it)
      \<and> (case item_score it of None \<Rightarrow> 0 | Some sc \<Rightarrow> sc) \<ge> MIN_SCORE_LATEST)"

definition onItemFetchedBest :: "controller onItem" where
  "onItemFetchedBest it g =
     (if valid Best it then
        (case renderBestNewsItem it g of
           (Some e, g') \<Rightarrow> (Inl e, g')
         | (None, g') \<Rightarrow> (Inr True, g'))
      else (Inr False, g))"

definition onItemFetchedLatest :: "controller onItem" where
  "onItemFetchedLatest it g =
     (if valid Latest it then
        (case renderLatestNewsItem it g of
           (Some e, g') \<Rightarrow> (Inl e, g')
         | (None, g') \<Rightarrow> (Inr True, g'))
      else (Inr False, g))"

fun onItemFetched :: "feed \<Rightarrow> controller onItem" where
  "onItemFetched Best = onItemFetchedBest"
| "onItemFetched Latest = onItemFetchedLatest"

text \<open>
  \<open>updateBestNewsLoadButton\<close> and \<open>updateLatestNewsLoadButton\<close>, the same on the globals of
  their feed; \<open>onBatchComplete\<close> calls it and drops the count.
\<close>

definition updateNewsLoadButton :: "controller \<Rightarrow> controller" where
  "updateNewsLoadButton g =
     (let totalProcessedIds = (newsPage g + 1) * ITEMS_PER_PAGE;
          hasMore = totalProcessedIds < length (newsIds g)
      in g\<lparr>loadBtn := hasMore\<rparr>)"

definition onBatchComplete :: "controller onDone" where
  "onBatchComplete n g = updateNewsLoadButton g"

text \<open>
  One feed while the page runs: its globals and DOM, the calls its fetcher has made, the
  suspended call of \<open>fetchItemsWithConcurrency\<close> if there is one (\<open>loadMore...\<close> waits for it
  and has nothing of its own to keep), and the exception of a call that ended by raising.
\<close>

record machine =
  globals :: controller
  calls :: "call list"
  frame :: "task option"
  uncaught :: "js_error option"

text \<open>
  \<open>loadMoreBestNews\<close> and \<open>loadMoreLatestNews\<close> from \<open>await fetchItemsWithConcurrency(...)\<close>
  on: suspended with the fetcher, or \<open>page++; loading = false\<close> once it has returned, or left
  by its exception.
\<close>

fun after_fetch :: "machine \<Rightarrow> status \<times> controller \<times> call list \<Rightarrow> machine" where
  "after_fetch m (Awaiting t, g, tr) = m\<lparr>globals := g, calls := tr, frame := Some t\<rparr>"
| "after_fetch m (Returned, g, tr) =
     m\<lparr>globals := g\<lparr>newsPage := newsPage g + 1, newsLoading := False\<rparr>, calls := tr, frame := None\<rparr>"
| "after_fetch m (Threw e, g, tr) = m\<lparr>globals := g, calls := tr, frame := None, uncaught := Some e\<rparr>"

text \<open>
  \<open>loadMoreBestNews\<close> and \<open>loadMoreLatestNews\<close> from their call to the \<open>await\<close>. The script
  writes the function out twice; the two differ in the globals they use and in their
  \<open>onItemFetched\<close>, so here they are one function of the feed. A feed has at most one
  suspended call, as the guard lets no second one start while the flag is set.
\<close>

definition loadMoreNews :: "feed \<Rightarrow> machine \<Rightarrow> machine" where
  "loadMoreNews f m =
     (let g = globals m in
      if newsLoading g \<or> newsPage g * ITEMS_PER_PAGE \<ge> length (newsIds g) then m
      else
        let g1 = g\<lparr>newsLoading := True\<rparr>;
            startIndex = newsPage g1 * ITEMS_PER_PAGE;
            endIndex = startIndex + ITEMS_PER_PAGE;
            batchIds = slice (newsIds g1) startIndex endIndex
        in after_fetch m
             (fetchItemsWithConcurrency batchIds (onItemFetched f) onBatchComplete g1 (calls m)))"

definition loadMoreBestNews :: "machine \<Rightarrow> machine" where
  "loadMoreBestNews = loadMoreNews Best"

definition loadMoreLatestNews :: "machine \<Rightarrow> machine" where
  "loadMoreLatestNews = loadMoreNews Latest"

text \<open>
  What can happen to a feed: \<open>loadMore...\<close> is called (by the initialisation or by a click),
  or the transport answers the request of the \<open>j\<close>-th promise of the chunk in flight.
\<close>

datatype event = Advance | Settle nat "(item option) response"

fun step :: "feed \<Rightarrow> event \<Rightarrow> machine \<Rightarrow> machine" where
  "step f Advance m = loadMoreNews f m"
| "step f (Settle j res) m =
     (case frame m of
        None \<Rightarrow> m
      | Some t \<Rightarrow>
          after_fetch m (deliver (onItemFetched f) onBatchComplete j res (Awaiting t, globals m, calls m)))"

definition run :: "feed \<Rightarrow> event list \<Rightarrow> machine \<Rightarrow> machine" where
  "run f evs m = fold (step f) evs m"

text \<open>
  The feed once its id list is assigned and the cursor reset, before the first page is asked
  for; \<open>btn\<close> is what the style sheet makes of the button. With \<open>[]\<close> it is the feed as the
  script declares it.
\<close>

definition start :: "nat list \<Rightarrow> bool \<Rightarrow> machine" where
  "start ids btn =
     \<lparr>globals = \<lparr>newsIds = ids, newsPage = 0, newsLoading = False, surface = [], loadBtn = btn\<rparr>,
      calls = [], frame = None, uncaught = None\<rparr>"

fun list_api :: "feed \<Rightarrow> request" where
  "list_api Best = BEST_NEWS_API"
| "list_api Latest = LATEST_NEWS_API"

text \<open>
  \<open>initializeBestNews\<close> and \<open>initializeLatestNews\<close>, given the answer to the list request:
  nothing is assigned and no page is asked for when the list is empty.
\<close>

definition initializeNews :: "feed \<Rightarrow> (nat list) response \<Rightarrow> bool \<Rightarrow> machine" where
  "initializeNews f res btn =
     (let ids = snd (fetchFromAPI (list_api f)) res in
      if ids = [] then start [] btn
      else loadMoreNews f (start ids btn))"

section \<open>The answers of the transport\<close>

text \<open>
  A suspended call of the fetcher as the answers to its requests come in, one after the
  other: each is the position of a promise in the chunk in flight and the answer to its
  request.
\<close>

definition drive ::
  "'s onItem \<Rightarrow> 's onDone \<Rightarrow> (nat \<times> (item option) response) list \<Rightarrow> status \<times> 's \<times> call list \<Rightarrow> status \<times> 's \<times> call list" where
  "drive oi od answers cfg = fold (\<lambda>(j, res). deliver oi od j res) answers cfg"

text \<open>
  The transport answering every request of a batch, \<open>rs\<close> being the answers in the order of
  the ids: chunk by chunk, and within a chunk in the order of the latencies, \<open>lat p\<close> being
  the time the answer to the request at position \<open>p\<close> of the batch takes. Any order of
  arrival within a chunk is that of some \<open>lat\<close>.
\<close>

function schedule :: "(nat \<Rightarrow> nat) \<Rightarrow> nat \<Rightarrow> 'a list \<Rightarrow> (nat \<times> 'a) list" where
  "schedule lat i [] = []"
| "schedule lat i (r # rs) =
     map (\<lambda>j. (j, (r # rs) ! j))
       (sort_key (\<lambda>j. lat (i + j)) [0..<min MAX_CONCURRENT_REQUESTS (length (r # rs))])
     @ schedule lat (i + MAX_CONCURRENT_REQUESTS) (drop MAX_CONCURRENT_REQUESTS (r # rs))"
  by pat_completeness auto
termination
  by (relation "measure (\<lambda>(lat, i, rs). length rs)") (auto simp: MAX_CONCURRENT_REQUESTS_def)

text \<open>A call of the fetcher at the point where every request of it has been answered.\<close>

definition settled_batch ::
  "'s onItem \<Rightarrow> 's onDone \<Rightarrow> (nat \<Rightarrow> nat) \<Rightarrow> nat list \<Rightarrow> (item option) response list \<Rightarrow> 's \<Rightarrow> call list \<Rightarrow> status \<times> 's \<times> call list" where
  "settled_batch oi od lat ids rs u tr =
     drive oi od (schedule lat 0 rs) (fetchItemsWithConcurrency ids oi od u tr)"

text \<open>The ids of the page a feed asks for next: \<open>batchIds\<close> in \<open>loadMore...\<close>.\<close>

definition page_ids :: "machine \<Rightarrow> nat list" where
  "page_ids m =
     slice (newsIds (globals m)) (newsPage (globals m) * ITEMS_PER_PAGE)
       (newsPage (globals m) * ITEMS_PER_PAGE + ITEMS_PER_PAGE)"

text \<open>A feed loading one page: \<open>loadMore...\<close> is called and every request is answered.\<close>

definition load_page :: "feed \<Rightarrow> (nat \<Rightarrow> nat) \<Rightarrow> (item option) response list \<Rightarrow> machine \<Rightarrow> machine" where
  "load_page f lat rs m = run f (Advance # map (\<lambda>(j, res). Settle j res) (schedule lat 0 rs)) m"

section \<open>Observations on a run\<close>

fun is_OnDone :: "call \<Rightarrow> bool" where
  "is_OnDone (OnDone n) = True"
| "is_OnDone c = False"

text \<open>The batch fetches of a feed that have completed: the calls of \<open>onBatchComplete\<close>.\<close>

definition completed :: "machine \<Rightarrow> nat" where
  "completed m = length (filter is_OnDone (calls m))"

text \<open>The second disjunct of the guard of \<open>loadMore...\<close>: every id has been asked for.\<close>

definition exhausted :: "machine \<Rightarrow> bool" where
  "exhausted m = (newsPage (globals m) * ITEMS_PER_PAGE \<ge> length (newsIds (globals m)))"

text \<open>The calls of the two callbacks among the calls made.\<close>

fun is_callback :: "call \<Rightarrow> bool" where
  "is_callback (OnItem it r) = True"
| "is_callback (OnDone n) = True"
| "is_callback c = False"

definition callbacks :: "call list \<Rightarrow> call list" where
  "callbacks tr = filter is_callback tr"

text \<open>
  The items \<open>onItemFetched\<close> was called on; those it returned true for; the exceptions it
  raised; the counts \<open>onBatchComplete\<close> was called with. Each in the order of the calls.
\<close>

definition called_items :: "call list \<Rightarrow> item list" where
  "called_items tr = concat (map (\<lambda>c. case c of OnItem it r \<Rightarrow> [it] | _ \<Rightarrow> []) tr)"

definition accepted_items :: "call list \<Rightarrow> item list" where
  "accepted_items tr = concat (map (\<lambda>c. case c of OnItem it (Inr True) \<Rightarrow> [it] | _ \<Rightarrow> []) tr)"

definition raised :: "call list \<Rightarrow> js_error list" where
  "raised tr = concat (map (\<lambda>c. case c of OnItem it (Inl e) \<Rightarrow> [e] | _ \<Rightarrow> []) tr)"

definition done_calls :: "call list \<Rightarrow> nat list" where
  "done_calls tr = concat (map (\<lambda>c. case c of OnDone n \<Rightarrow> [n] | _ \<Rightarrow> []) tr)"

text \<open>The requests sent, in the order they were sent.\<close>

definition requests :: "call list \<Rightarrow> request list" where
  "requests tr = concat (map (\<lambda>c. case c of Fetch rq \<Rightarrow> [rq] | _ \<Rightarrow> []) tr)"

text \<open>The results that are not \<open>null\<close>, in their order.\<close>

fun present :: "'a option list \<Rightarrow> 'a list" where
  "present [] = []"
| "present (None # xs) = present xs"
| "present (Some x # xs) = x # present xs"

text \<open>What the requests for \<open>ids\<close> resolve to when \<open>rs\<close> are the answers, id by id.\<close>

definition fetched :: "nat list \<Rightarrow> (item option) response list \<Rightarrow> item option list" where
  "fetched ids rs = map (\<lambda>(ident, res). snd (fetchItemDetails ident) res) (zip ids rs)"

text \<open>
  The batch fetcher as the specification words it, without chunks: pass every result that
  is not absent to \<open>onItem\<close> in the order of the ids, count the calls that return true, and
  call \<open>onDone\<close> once with the count; an exception of \<open>onItem\<close> ends it.
\<close>

definition outcome :: "'s onItem \<Rightarrow> 's onDone \<Rightarrow> item option list \<Rightarrow> nat \<Rightarrow> 's \<Rightarrow> status \<times> 's \<times> call list" where
  "outcome oi od items n u =
     (case forEach oi items n u of
        (Inl e, u', cs) \<Rightarrow> (Threw e, u', cs)
      | (Inr n', u', cs) \<Rightarrow> (Returned, od n' u', cs @ [OnDone n']))"

text \<open>The requests in flight after a sequence of calls: those sent less those answered.\<close>

fun flight :: "call \<Rightarrow> int" where
  "flight (Fetch rq) = 1"
| "flight (Resolved rq v) = - 1"
| "flight c = 0"

definition in_flight :: "call list \<Rightarrow> int" where
  "in_flight tr = sum_list (map flight tr)"

text \<open>
  A monitor of the calls. It keeps whether the last call was a request, the number of
  requests in flight, and the number of items that have arrived and have not been passed to
  \<open>onItemFetched\<close>. A request may be sent when nothing is in flight, or right after another
  request, below the cap, and only when no item waits to be passed; an answer needs a
  request in flight; \<open>onItemFetched\<close> is called only when nothing is in flight, on an item
  that waits; \<open>onBatchComplete\<close> is called only when nothing is in flight and nothing waits.
  \<open>None\<close> is a violation.
\<close>

fun watch :: "call \<Rightarrow> (bool \<times> nat \<times> nat) option \<Rightarrow> (bool \<times> nat \<times> nat) option" where
  "watch c None = None"
| "watch (Fetch rq) (Some (issuing, k, w)) =
     (if (issuing \<or> k = 0) \<and> k < MAX_CONCURRENT_REQUESTS \<and> w = 0 then Some (True, k + 1, w) else None)"
| "watch (Resolved rq v) (Some (issuing, k, w)) =
     (if 0 < k then Some (False, k - 1, (case v of None \<Rightarrow> w | Some it \<Rightarrow> w + 1)) else None)"
| "watch (OnItem it r) (Some (issuing, k, w)) = (if k = 0 \<and> 0 < w then Some (False, 0, w - 1) else None)"
| "watch (OnDone n) (Some (issuing, k, w)) = (if k = 0 \<and> w = 0 then Some (False, 0, 0) else None)"

definition watched :: "call list \<Rightarrow> (bool \<times> nat \<times> nat) option" where
  "watched tr = fold watch tr (Some (False, 0, 0))"

fun is_pending :: "promise \<Rightarrow> bool" where
  "is_pending (Pending rq h) = True"
| "is_pending (Settled v) = False"

fun settle_value :: "promise \<Rightarrow> (item option) response \<Rightarrow> item option" where
  "settle_value (Pending rq h) res = h res"
| "settle_value (Settled v) res = v"

fun request_of :: "promise \<Rightarrow> request option" where
  "request_of (Pending rq h) = Some rq"
| "request_of (Settled v) = None"

text \<open>The promises of a call that have not settled.\<close>

fun pending :: "status \<Rightarrow> nat" where
  "pending (Awaiting t) = length (filter is_pending (batchPromises t))"
| "pending Returned = 0"
| "pending (Threw e) = 0"

text \<open>The promises of a chunk that have settled with an item.\<close>

fun has_item :: "promise \<Rightarrow> bool" where
  "has_item (Settled (Some it)) = True"
| "has_item p = False"

text \<open>
  The node a render function appends for an item that has a title, and the items on which
  \<open>onItemFetched\<close> raises: they pass the check and have no title.
\<close>

definition node_of :: "feed \<Rightarrow> item \<Rightarrow> node" where
  "node_of f it =
     \<lparr>node_href = item_url it,
      node_image = (case f of Best \<Rightarrow> Some (getImageByID (item_id it)) | Latest \<Rightarrow> None),
      node_title = (case escapeHTML (item_title it) of Inl e \<Rightarrow> [] | Inr title \<Rightarrow> title),
      node_time = item_time it\<rparr>"

definition raises :: "feed \<Rightarrow> item \<Rightarrow> bool" where
  "raises f it = (valid f it \<and> item_title it = None)"

section \<open>Invariants\<close>

text \<open>What holds of a feed with id list \<open>ids\<close> whatever happens to it.\<close>

definition inv :: "nat list \<Rightarrow> machine \<Rightarrow> bool" where
  "inv ids m =
     (newsIds (globals m) = ids
      \<and> length (filter is_OnDone (calls m)) = newsPage (globals m)
      \<and> newsPage (globals m) * ITEMS_PER_PAGE < length ids + ITEMS_PER_PAGE
      \<and> (frame m \<noteq> None \<longrightarrow> newsLoading (globals m) \<and> newsPage (globals m) * ITEMS_PER_PAGE < length ids)
      \<and> (0 < newsPage (globals m) \<longrightarrow> loadBtn (globals m) = (newsPage (globals m) * ITEMS_PER_PAGE < length ids)))"

text \<open>
  What holds of a call of the fetcher whatever the transport does: the monitor accepts the
  calls made, counts as many requests in flight as there are pending promises, and has as
  many items waiting as the chunk in flight has received.
\<close>

definition calm :: "status \<times> 's \<times> call list \<Rightarrow> bool" where
  "calm cfg = (case cfg of (st, u, tr) \<Rightarrow>
      (case st of
         Awaiting t \<Rightarrow> batchPromises t \<noteq> []
           \<and> (\<exists>b. watched tr = Some (b, pending st, length (filter has_item (batchPromises t))))
       | Returned \<Rightarrow> (\<exists>b. watched tr = Some (b, 0, 0))
       | Threw e \<Rightarrow> (\<exists>b w. watched tr = Some (b, 0, w))))"

text \<open>
  What holds of a call of the fetcher on \<open>ids\<close> whatever the transport does: the requests sent
  are those for the ids up to the end of the chunk in flight, each once and in order.
\<close>

definition asked :: "nat list \<Rightarrow> status \<times> 's \<times> call list \<Rightarrow> bool" where
  "asked ids cfg = (case cfg of (st, u, tr) \<Rightarrow>
      (case st of
         Awaiting t \<Rightarrow> task_ids t = ids
           \<and> requests tr = map ITEM_API (take (task_i t + MAX_CONCURRENT_REQUESTS) ids)
       | Returned \<Rightarrow> requests tr = map ITEM_API ids
       | Threw e \<Rightarrow> prefix (requests tr) (map ITEM_API ids)))"

section \<open>Sample data\<close>

definition story :: "nat \<Rightarrow> string option \<Rightarrow> string option \<Rightarrow> item" where
  "story ident t u =
     \<lparr>item_id = ident, item_type = ''story'', item_title = t, item_url = u,
      item_time = Some 1700000000, item_score = Some 10\<rparr>"

definition ok_story :: "nat \<Rightarrow> (item option) response" where
  "ok_story ident =
     Response True (Json (Some (story ident (Some ''A title'') (Some ''https://www.example.com/x''))))"

text \<open>A story with a URL and no title.\<close>

definition untitled :: "(item option) response" where
  "untitled = Response True (Json (Some (story 2 None (Some ''https://www.example.com/y''))))"

definition ids7 :: "nat list" where
  "ids7 = [1, 2, 3, 4, 5, 6, 7]"

text \<open>
  The first page of \<open>ids7\<close>: answers out of order, a failed request, an unknown id, a click
  while the page loads and a response that is not \<open>ok\<close>.
\<close>

definition page0 :: "event list" where
  "page0 = [Advance, Settle 1 (ok_story 2), Settle 0 (ok_story 1), Settle 2 Rejected,
            Settle 2 (Response True (Json None)), Advance, Settle 0 (ok_story 4),
            Settle 1 (Response False Undecodable)]"

definition page1 :: "event list" where
  "page1 = [Advance, Settle 0 (ok_story 7)]"

text \<open>Answers to four requests: a story, a failure, an unknown id, a story.\<close>

definition answers4 :: "(item option) response list" where
  "answers4 = [ok_story 1, Rejected, Response True (Json None), ok_story 4]"

text \<open>
  Answers to six requests: a story, a comment, a story with an empty URL, a failure, an
  unknown id, a story.
\<close>

definition answers6 :: "(item option) response list" where
  "answers6 =
     [ok_story 1,
      Response True (Json (Some ((story 2 (Some ''A comment'') (Some ''https://www.example.com/c''))\<lparr>item_type := ''comment''\<rparr>))),
      Response True (Json (Some (story 3 (Some ''Ask'') (Some [])))),
      Rejected,
      Response True (Json None),
      ok_story 6]"

text \<open>Answers as they come, some to promises that have settled or are not there.\<close>

definition some_answers :: "(nat \<times> (item option) response) list" where
  "some_answers = [(2, Rejected), (0, ok_story 1), (0, ok_story 1), (1, Response True (Json None)), (1, ok_story 5)]"

text \<open>Latencies under which the last request of a chunk is answered first.\<close>

definition backwards :: "nat \<Rightarrow> nat" where
  "backwards i = 10 - i"

section \<open>Evaluation\<close>

lemmas eval_defs = Let_def run_def start_def loadMoreNews_def ITEMS_PER_PAGE_def
  fetchItemsWithConcurrency_def loop_from_def slice_def MAX_CONCURRENT_REQUESTS_def fetchItemDetails_def
  deliver_def resume_def try_body_def onItemFetchedBest_def renderBestNewsItem_def escapeHTML_def truthy_def
  getImageByID_def IMAGES_def onBatchComplete_def updateNewsLoadButton_def
  onItemFetchedLatest_def renderLatestNewsItem_def MIN_SCORE_LATEST_def exhausted_def completed_def
  page0_def page1_def ids7_def ok_story_def story_def

lemmas eval2_defs = settled_batch_def drive_def answers4_def answers6_def backwards_def untitled_def
  raised_def done_calls_def accepted_items_def called_items_def callbacks_def fetched_def
  page_ids_def load_page_def raises_def in_flight_def node_of_def

section \<open>The callbacks of a feed write its surface and its button only\<close>

lemma onItemFetched_surface:
  "onItemFetched f it g = (r, g') \<Longrightarrow> g' = g\<lparr>surface := surface g'\<rparr>"
  by (cases f) (auto simp: onItemFetchedBest_def onItemFetchedLatest_def renderBestNewsItem_def
      renderLatestNewsItem_def split: if_splits sum.splits option.splits)

lemma forEach_surface:
  "forEach (onItemFetched f) items n g = (r, g', cs) \<Longrightarrow> g' = g\<lparr>surface := surface g'\<rparr>"
proof (induction items arbitrary: n g r g' cs)
  case Nil
  then show ?case by simp
next
  case (Cons a items)
  show ?case
  proof (cases a)
    case None
    with Cons show ?thesis by simp
  next
    case (Some it)
    obtain r1 g1 where o: "onItemFetched f it g = (r1, g1)" by (cases "onItemFetched f it g")
    from onItemFetched_surface[OF o] have g1: "g1 = g\<lparr>surface := surface g1\<rparr>" .
    show ?thesis
    proof (cases r1)
      case (Inl e)
      with Cons.prems Some o g1 show ?thesis by simp
    next
      case (Inr b)
      obtain r2 g2 cs2 where fe: "forEach (onItemFetched f) items (if b then n + 1 else n) g1 = (r2, g2, cs2)"
        by (cases "forEach (onItemFetched f) items (if b then n + 1 else n) g1")
      from Cons.IH[OF fe] have "g2 = g1\<lparr>surface := surface g2\<rparr>" .
      with g1 have "g2 = g\<lparr>surface := surface g2\<rparr>"
        by (metis controller.surjective controller.update_convs(4))
      with Cons.prems Some o Inr fe show ?thesis by simp
    qed
  qed
qed

lemma forEach_no_OnDone:
  "forEach onItem items n u = (r, u', cs) \<Longrightarrow> filter is_OnDone cs = []"
  by (induction onItem items n u arbitrary: r u' cs rule: forEach.induct)
     (auto split: prod.splits sum.splits)

lemma forEach_fields:
  assumes "forEach (onItemFetched f) items n g = (r, g', cs)"
  shows "newsIds g' = newsIds g" "newsPage g' = newsPage g" "newsLoading g' = newsLoading g" "loadBtn g' = loadBtn g"
proof -
  from forEach_surface[OF assms] obtain sf where "g' = g\<lparr>surface := sf\<rparr>" by blast
  then show "newsIds g' = newsIds g" "newsPage g' = newsPage g" "newsLoading g' = newsLoading g" "loadBtn g' = loadBtn g"
    by simp_all
qed

section \<open>The ways a step can go\<close>

lemma deliver_cases:
  assumes d: "deliver oi od j res (Awaiting t, u, tr) = (st', u', tr')"
  obtains (ignored) "st' = Awaiting t" "u' = u" "tr' = tr"
  | (settled) rq h where "j < length (batchPromises t)" "batchPromises t ! j = Pending rq h"
      "promise_all ((batchPromises t)[j := Settled (h res)]) = None"
      "st' = Awaiting (t\<lparr>batchPromises := (batchPromises t)[j := Settled (h res)]\<rparr>)"
      "u' = u" "tr' = tr @ [Resolved rq (h res)]"
  | (threw) rq h batchItems e cs where "j < length (batchPromises t)" "batchPromises t ! j = Pending rq h"
      "promise_all ((batchPromises t)[j := Settled (h res)]) = Some batchItems"
      "forEach oi batchItems (validItemsCount t) u = (Inl e, u', cs)"
      "st' = Threw e" "tr' = tr @ [Resolved rq (h res)] @ cs"
  | (looped) rq h batchItems n u1 cs where "j < length (batchPromises t)" "batchPromises t ! j = Pending rq h"
      "promise_all ((batchPromises t)[j := Settled (h res)]) = Some batchItems"
      "forEach oi batchItems (validItemsCount t) u = (Inr n, u1, cs)"
      "loop_from od (task_ids t) (task_i t + MAX_CONCURRENT_REQUESTS) n u1 (tr @ [Resolved rq (h res)] @ cs) = (st', u', tr')"
proof (cases "j < length (batchPromises t)")
  case False
  with d have "st' = Awaiting t" "u' = u" "tr' = tr" by (auto simp: deliver_def)
  then show ?thesis by (rule ignored)
next
  case True
  show ?thesis
  proof (cases "batchPromises t ! j")
    case (Settled v)
    with d True have "st' = Awaiting t" "u' = u" "tr' = tr" by (auto simp: deliver_def)
    then show ?thesis by (rule ignored)
  next
    case (Pending rq h)
    show ?thesis
    proof (cases "promise_all ((batchPromises t)[j := Settled (h res)])")
      case None
      with d True Pending show ?thesis
        by (intro settled[of rq h]) (auto simp: deliver_def)
    next
      case (Some batchItems)
      obtain r u1 cs where fe: "forEach oi batchItems (validItemsCount t) u = (r, u1, cs)"
        by (cases "forEach oi batchItems (validItemsCount t) u")
      show ?thesis
      proof (cases r)
        case (Inl e)
        with d True Pending Some fe show ?thesis
          by (intro threw[of rq h batchItems e cs]) (auto simp: deliver_def resume_def)
      next
        case (Inr n)
        with d True Pending Some fe show ?thesis
          by (intro looped[of rq h batchItems n u1 cs]) (auto simp: deliver_def resume_def)
      qed
    qed
  qed
qed


lemma loop_from_cases:
  assumes "loop_from od ids i n u tr = (st', u', tr')"
  obtains (next_chunk) "i < length ids"
      "st' = Awaiting \<lparr>task_ids = ids, task_i = i, validItemsCount = n,
          batchPromises = map (\<lambda>ident. case fetchItemDetails ident of (rq, h) \<Rightarrow> Pending rq h)
             (slice ids i (i + MAX_CONCURRENT_REQUESTS))\<rparr>"
      "u' = u"
      "tr' = tr @ map (\<lambda>ident. Fetch (fst (fetchItemDetails ident))) (slice ids i (i + MAX_CONCURRENT_REQUESTS))"
  | (finished) "length ids \<le> i" "st' = Returned" "u' = od n u" "tr' = tr @ [OnDone n]"
  using assms by (cases "i < length ids") (auto simp: loop_from_def Let_def)

lemma filter_OnDone_Fetch [simp]: "filter is_OnDone (map (\<lambda>ident. Fetch (g ident)) xs) = []"
  by (induction xs) auto

section \<open>The invariant\<close>

lemma inv_loadMore:
  assumes "inv ids m"
  shows "inv ids (loadMoreNews f m)"
proof (cases "newsLoading (globals m) \<or> newsPage (globals m) * ITEMS_PER_PAGE \<ge> length (newsIds (globals m))")
  case True
  with assms show ?thesis by (simp add: loadMoreNews_def)
next
  case False
  then have lt: "newsPage (globals m) * ITEMS_PER_PAGE < length ids" using assms by (simp add: inv_def)
  let ?g1 = "(globals m)\<lparr>newsLoading := True\<rparr>"
  let ?b = "slice ids (newsPage (globals m) * ITEMS_PER_PAGE) (newsPage (globals m) * ITEMS_PER_PAGE + ITEMS_PER_PAGE)"
  have ne: "0 < length ?b" using lt by (simp add: slice_def ITEMS_PER_PAGE_def)
  obtain st' u' tr' where l: "loop_from onBatchComplete ?b 0 0 ?g1 (calls m) = (st', u', tr')"
    by (cases "loop_from onBatchComplete ?b 0 0 ?g1 (calls m)")
  have eq: "loadMoreNews f m = after_fetch m (st', u', tr')"
    using False assms l by (simp add: loadMoreNews_def fetchItemsWithConcurrency_def inv_def Let_def)
  from l show ?thesis
  proof (cases rule: loop_from_cases)
    case next_chunk
    with eq assms lt show ?thesis by (simp add: inv_def)
  next
    case finished
    with ne show ?thesis by simp
  qed
qed

lemma inv_step:
  assumes "inv ids m"
  shows "inv ids (step f e m)"
proof (cases e)
  case Advance
  with inv_loadMore[OF assms] show ?thesis by simp
next
  case (Settle j res)
  show ?thesis
  proof (cases "frame m")
    case None
    with Settle assms show ?thesis by simp
  next
    case (Some t)
    obtain st' u' tr' where d: "deliver (onItemFetched f) onBatchComplete j res (Awaiting t, globals m, calls m) = (st', u', tr')"
      by (cases "deliver (onItemFetched f) onBatchComplete j res (Awaiting t, globals m, calls m)")
    have eq: "step f e m = after_fetch m (st', u', tr')" using Settle Some d by simp
    from assms Some have lt: "newsPage (globals m) * ITEMS_PER_PAGE < length ids" and ld: "newsLoading (globals m)"
      by (auto simp: inv_def)
    from d show ?thesis
    proof (cases rule: deliver_cases)
      case ignored
      with eq assms Some show ?thesis by (simp add: inv_def)
    next
      case (settled rq h)
      with eq assms Some show ?thesis by (simp add: inv_def)
    next
      case (threw rq h batchItems e cs)
      from forEach_fields[OF threw(4)] forEach_no_OnDone[OF threw(4)] threw(5,6) eq assms
      show ?thesis by (simp add: inv_def)
    next
      case (looped rq h batchItems n u1 cs)
      note ff = forEach_fields[OF looped(4)] and nd = forEach_no_OnDone[OF looped(4)]
      from looped(5) show ?thesis
      proof (cases rule: loop_from_cases)
        case next_chunk
        with ff nd eq assms lt ld show ?thesis by (simp add: inv_def)
      next
        case finished
        with ff nd eq assms lt ld show ?thesis
          by (simp add: inv_def onBatchComplete_def updateNewsLoadButton_def Let_def)
      qed
    qed
  qed
qed

lemma inv_start: "inv ids (start ids btn)"
  by (simp add: inv_def start_def ITEMS_PER_PAGE_def)

lemma inv_run: "inv ids m \<Longrightarrow> inv ids (run f evs m)"
  unfolding run_def by (induction evs arbitrary: m) (auto intro: inv_step)

lemma inv_initialize: "inv (snd (fetchFromAPI (list_api f)) res) (initializeNews f res btn)"
  by (auto simp: initializeNews_def Let_def intro: inv_start inv_loadMore)

lemma step_calls: "prefix (calls m) (calls (step f e m))"
proof (cases e)
  case Advance
  show ?thesis
  proof (cases "newsLoading (globals m) \<or> newsPage (globals m) * ITEMS_PER_PAGE \<ge> length (newsIds (globals m))")
    case True
    with Advance show ?thesis by (simp add: loadMoreNews_def)
  next
    case False
    with Advance show ?thesis
      by (auto simp: loadMoreNews_def Let_def fetchItemsWithConcurrency_def loop_from_def)
  qed
next
  case (Settle j res)
  show ?thesis
  proof (cases "frame m")
    case None
    with Settle show ?thesis by simp
  next
    case (Some t)
    obtain st' u' tr' where d: "deliver (onItemFetched f) onBatchComplete j res (Awaiting t, globals m, calls m) = (st', u', tr')"
      by (cases "deliver (onItemFetched f) onBatchComplete j res (Awaiting t, globals m, calls m)")
    have eq: "calls (step f e m) = tr'" using Settle Some d by (cases st') simp_all
    from d show ?thesis
    proof (cases rule: deliver_cases)
      case ignored
      with eq show ?thesis by simp
    next
      case (settled rq h)
      with eq show ?thesis by simp
    next
      case (threw rq h batchItems e cs)
      with eq show ?thesis by simp
    next
      case (looped rq h batchItems n u1 cs)
      from looped(5) eq show ?thesis
        by (cases rule: loop_from_cases) (simp_all add: prefix_def)
    qed
  qed
qed

lemma run_calls: "prefix (calls m) (calls (run f evs m))"
  unfolding run_def
proof (induction evs arbitrary: m)
  case Nil
  show ?case by simp
next
  case (Cons e evs)
  from step_calls[of m f e] Cons[of "step f e m"] show ?case
    by (auto intro: prefix_order.trans)
qed

lemma completed_mono: "completed m \<le> completed (run f evs m)"
proof -
  from run_calls[of m f evs] obtain cs where "calls (run f evs m) = calls m @ cs"
    by (auto simp: prefix_def)
  then show ?thesis by (simp add: completed_def)
qed

lemma step_page_le: "newsPage (globals (step f e m)) \<le> newsPage (globals m) + 1"
proof (cases e)
  case Advance
  show ?thesis
  proof (cases "newsLoading (globals m) \<or> newsPage (globals m) * ITEMS_PER_PAGE \<ge> length (newsIds (globals m))")
    case True
    with Advance show ?thesis by (simp add: loadMoreNews_def)
  next
    case False
    with Advance show ?thesis
      by (auto simp: loadMoreNews_def Let_def fetchItemsWithConcurrency_def loop_from_def
          onBatchComplete_def updateNewsLoadButton_def)
  qed
next
  case (Settle j res)
  show ?thesis
  proof (cases "frame m")
    case None
    with Settle show ?thesis by simp
  next
    case (Some t)
    obtain st' u' tr' where d: "deliver (onItemFetched f) onBatchComplete j res (Awaiting t, globals m, calls m) = (st', u', tr')"
      by (cases "deliver (onItemFetched f) onBatchComplete j res (Awaiting t, globals m, calls m)")
    have eq: "step f e m = after_fetch m (st', u', tr')" using Settle Some d by simp
    from d show ?thesis
    proof (cases rule: deliver_cases)
      case ignored
      with eq show ?thesis by simp
    next
      case (settled rq h)
      with eq show ?thesis by simp
    next
      case (threw rq h batchItems e cs)
      from forEach_fields[OF threw(4)] threw(5) eq show ?thesis by simp
    next
      case (looped rq h batchItems n u1 cs)
      note ff = forEach_fields[OF looped(4)]
      from looped(5) ff eq show ?thesis
        by (cases rule: loop_from_cases)
           (simp_all add: onBatchComplete_def updateNewsLoadButton_def Let_def)
    qed
  qed
qed


section \<open>A chunk settles in any order\<close>

lemma promise_all_pending:
  "\<exists>p\<in>set ps. is_pending p \<Longrightarrow> promise_all ps = None"
  by (induction ps rule: promise_all.induct) auto

lemma promise_all_settled:
  "\<forall>p\<in>set ps. \<not> is_pending p \<Longrightarrow> promise_all ps = Some (map (\<lambda>p. settle_value p res) ps)"
  by (induction ps rule: promise_all.induct) auto

lemma promise_all_Some_pending:
  "promise_all ps = Some vs \<Longrightarrow> filter is_pending ps = []"
  by (induction ps arbitrary: vs rule: promise_all.induct) auto

lemma resume_promises [simp]:
  "resume oi od (t\<lparr>batchPromises := ps\<rparr>) items u tr = resume oi od t items u tr"
  by (simp add: resume_def split: prod.splits sum.splits)

lemma drive_Cons:
  "drive oi od ((j, res) # answers) cfg = drive oi od answers (deliver oi od j res cfg)"
  by (simp add: drive_def)

lemma drive_Nil [simp]: "drive oi od [] cfg = cfg"
  by (simp add: drive_def)

lemma drive_append: "drive oi od (xs @ ys) cfg = drive oi od ys (drive oi od xs cfg)"
  by (simp add: drive_def)

lemma drive_Threw [simp]: "drive oi od answers (Threw e, u, tr) = (Threw e, u, tr)"
  by (induction answers) (auto simp: drive_def deliver_def)

lemma drive_Returned [simp]: "drive oi od answers (Returned, u, tr) = (Returned, u, tr)"
  by (induction answers) (auto simp: drive_def deliver_def)

lemma chunk_settles:
  assumes "distinct js" "js \<noteq> []" "set js = {j. j < length ps \<and> is_pending (ps ! j)}"
  shows "drive oi od (map (\<lambda>j. (j, r j)) js) (Awaiting (t\<lparr>batchPromises := ps\<rparr>), u, tr)
       = resume oi od t (map (\<lambda>j. settle_value (ps ! j) (r j)) [0..<length ps]) u
           (tr @ map (\<lambda>j. Resolved (the (request_of (ps ! j))) (settle_value (ps ! j) (r j))) js)"
  using assms
proof (induction js arbitrary: ps tr)
  case Nil
  then show ?case by simp
next
  case (Cons j js)
  from Cons.prems(3) have jl: "j < length ps" and jp: "is_pending (ps ! j)" by auto
  then obtain rq h where p: "ps ! j = Pending rq h" by (cases "ps ! j") auto
  let ?ps = "ps[j := Settled (h (r j))]"
  have pend': "{x. x < length ?ps \<and> is_pending (?ps ! x)} = set js"
  proof -
    have "{x. x < length ?ps \<and> is_pending (?ps ! x)} = {x. x < length ps \<and> is_pending (ps ! x)} - {j}"
      using jl by (auto simp: nth_list_update split: if_splits)
    with Cons.prems(1,3) show ?thesis by auto
  qed
  have vals: "map (\<lambda>x. settle_value (?ps ! x) (r x)) [0..<length ps]
            = map (\<lambda>x. settle_value (ps ! x) (r x)) [0..<length ps]"
    using p jl by (auto simp: nth_list_update)
  show ?case
  proof (cases "js = []")
    case True
    with pend' have "\<forall>p\<in>set ?ps. \<not> is_pending p"
      by (auto simp: in_set_conv_nth)
    from promise_all_settled[OF this, of Rejected]
    have pa: "promise_all ?ps = Some (map (\<lambda>p. settle_value p Rejected) ?ps)" .
    have "map (\<lambda>p. settle_value p Rejected) ?ps = map (\<lambda>x. settle_value (?ps ! x) (r x)) [0..<length ps]"
    proof (rule nth_equalityI)
      show "length (map (\<lambda>p. settle_value p Rejected) ?ps) = length (map (\<lambda>x. settle_value (?ps ! x) (r x)) [0..<length ps])"
        by simp
    next
      fix i assume "i < length (map (\<lambda>p. settle_value p Rejected) ?ps)"
      then have il: "i < length ?ps" by simp
      with True pend' have "\<not> is_pending (?ps ! i)" by auto
      then obtain v where "?ps ! i = Settled v" by (cases "?ps ! i") auto
      with il show "map (\<lambda>p. settle_value p Rejected) ?ps ! i = map (\<lambda>x. settle_value (?ps ! x) (r x)) [0..<length ps] ! i"
        by simp
    qed
    with pa vals have pa': "promise_all ?ps = Some (map (\<lambda>x. settle_value (ps ! x) (r x)) [0..<length ps])" by simp
    from True jl p pa' show ?thesis
      by (simp add: drive_Cons deliver_def)
  next
    case False
    then obtain x where "x \<in> set js" by (cases js) auto
    with pend' have "x < length ?ps" "is_pending (?ps ! x)" by auto
    then have "\<exists>p\<in>set ?ps. is_pending p" by (metis nth_mem)
    from promise_all_pending[OF this] have pa: "promise_all ?ps = None" .
    from Cons.prems(1) have d: "distinct js" by simp
    have reqs: "map (\<lambda>x. Resolved (the (request_of (?ps ! x))) (settle_value (?ps ! x) (r x))) js
        = map (\<lambda>x. Resolved (the (request_of (ps ! x))) (settle_value (ps ! x) (r x))) js"
      using Cons.prems(1) jl by (auto simp: nth_list_update)
    from Cons.IH[OF d False pend'[symmetric], of "tr @ [Resolved rq (h (r j))]"] vals reqs
    have "drive oi od (map (\<lambda>j. (j, r j)) js) (Awaiting (t\<lparr>batchPromises := ?ps\<rparr>), u, tr @ [Resolved rq (h (r j))])
        = resume oi od t (map (\<lambda>x. settle_value (ps ! x) (r x)) [0..<length ps]) u
           ((tr @ [Resolved rq (h (r j))]) @ map (\<lambda>x. Resolved (the (request_of (ps ! x))) (settle_value (ps ! x) (r x))) js)"
      by simp
    with jl p pa show ?thesis
      by (simp add: drive_Cons deliver_def)
  qed
qed

lemma mk_promise:
  "(case fetchItemDetails ident of (rq, h) \<Rightarrow> Pending rq h) = Pending (ITEM_API ident) (snd (fetchItemDetails ident))"
  by (simp add: fetchItemDetails_def)

lemma fresh_chunk:
  assumes "chunkIds \<noteq> []" "distinct js" "set js = {0..<length chunkIds}"
  shows "drive oi od (map (\<lambda>j. (j, r j)) js)
           (Awaiting \<lparr>task_ids = ids, task_i = i, validItemsCount = n,
              batchPromises = map (\<lambda>ident. case fetchItemDetails ident of (rq, h) \<Rightarrow> Pending rq h) chunkIds\<rparr>, u, tr)
       = resume oi od \<lparr>task_ids = ids, task_i = i, validItemsCount = n, batchPromises = []\<rparr>
           (map (\<lambda>j. snd (fetchItemDetails (chunkIds ! j)) (r j)) [0..<length chunkIds]) u
           (tr @ map (\<lambda>j. Resolved (ITEM_API (chunkIds ! j)) (snd (fetchItemDetails (chunkIds ! j)) (r j))) js)"
proof -
  let ?ps = "map (\<lambda>ident. Pending (ITEM_API ident) (snd (fetchItemDetails ident))) chunkIds"
  let ?t = "\<lparr>task_ids = ids, task_i = i, validItemsCount = n, batchPromises = []\<rparr>"
  have ne: "js \<noteq> []" using assms(1,3) by auto
  have "{j. j < length ?ps \<and> is_pending (?ps ! j)} = {0..<length chunkIds}"
  proof (rule set_eqI)
    fix j
    show "j \<in> {j. j < length ?ps \<and> is_pending (?ps ! j)} \<longleftrightarrow> j \<in> {0..<length chunkIds}"
      by (cases "j < length chunkIds") simp_all
  qed
  with assms(3) have pend: "set js = {j. j < length ?ps \<and> is_pending (?ps ! j)}"
    by (simp only:)
  have vals: "map (\<lambda>j. settle_value (?ps ! j) (r j)) [0..<length ?ps]
      = map (\<lambda>j. snd (fetchItemDetails (chunkIds ! j)) (r j)) [0..<length chunkIds]"
    by simp
  have reqs: "map (\<lambda>j. Resolved (the (request_of (?ps ! j))) (settle_value (?ps ! j) (r j))) js
      = map (\<lambda>j. Resolved (ITEM_API (chunkIds ! j)) (snd (fetchItemDetails (chunkIds ! j)) (r j))) js"
    using assms(3) by simp
  have t: "?t\<lparr>batchPromises := ?ps\<rparr>
      = \<lparr>task_ids = ids, task_i = i, validItemsCount = n, batchPromises = ?ps\<rparr>" by simp
  from chunk_settles[OF assms(2) ne pend, of oi od r ?t u tr] show ?thesis
    unfolding mk_promise t vals reqs .
qed

section \<open>The chunked loop and the loop without chunks\<close>

lemma schedule_unfold:
  assumes "rs \<noteq> []"
  shows "schedule lat i rs =
     map (\<lambda>j. (j, rs ! j)) (sort_key (\<lambda>j. lat (i + j)) [0..<min MAX_CONCURRENT_REQUESTS (length rs)])
     @ schedule lat (i + MAX_CONCURRENT_REQUESTS) (drop MAX_CONCURRENT_REQUESTS rs)"
proof (cases rs)
  case Nil
  with assms show ?thesis by simp
next
  case (Cons r rs')
  show ?thesis unfolding Cons by (rule schedule.simps(2))
qed

lemma forEach_append:
  "forEach oi (xs @ ys) n u =
     (case forEach oi xs n u of
        (Inl e, u', cs) \<Rightarrow> (Inl e, u', cs)
      | (Inr n', u', cs) \<Rightarrow> (case forEach oi ys n' u' of (r, u'', cs') \<Rightarrow> (r, u'', cs @ cs')))"
  by (induction oi xs n u rule: forEach.induct) (auto split: prod.splits sum.splits)

lemma forEach_callbacks:
  "forEach oi items n u = (r, u', cs) \<Longrightarrow> callbacks cs = cs"
  by (induction oi items n u arbitrary: r u' cs rule: forEach.induct)
     (auto simp: callbacks_def split: prod.splits sum.splits)

lemma callbacks_Nil [simp]: "callbacks [] = []"
  by (simp add: callbacks_def)

lemma callbacks_append [simp]: "callbacks (xs @ ys) = callbacks xs @ callbacks ys"
  by (simp add: callbacks_def)

lemma callbacks_Fetch [simp]: "callbacks (map (\<lambda>x. Fetch (g x)) xs) = []"
  by (induction xs) (auto simp: callbacks_def)

lemma callbacks_Resolved [simp]: "callbacks (map (\<lambda>x. Resolved (g x) (h x)) xs) = []"
  by (induction xs) (auto simp: callbacks_def)

lemma fetched_drop: "drop i (fetched ids rs) = fetched (drop i ids) (drop i rs)"
  by (simp add: fetched_def drop_map drop_zip)

lemma fetched_take: "take k (fetched ids rs) = fetched (take k ids) (take k rs)"
  by (simp add: fetched_def take_map take_zip)

lemma fetched_nth:
  "length rs = length ids \<Longrightarrow> fetched ids rs = map (\<lambda>j. snd (fetchItemDetails (ids ! j)) (rs ! j)) [0..<length ids]"
  by (rule nth_equalityI) (auto simp: fetched_def)

lemma outcome_append:
  "outcome oi od (xs @ ys) n u =
     (case forEach oi xs n u of
        (Inl e, u', cs) \<Rightarrow> (Threw e, u', cs)
      | (Inr n', u', cs) \<Rightarrow> (case outcome oi od ys n' u' of (st, u'', cs') \<Rightarrow> (st, u'', cs @ cs')))"
  by (auto simp: outcome_def forEach_append split: prod.splits sum.splits)

lemma loop_outcome:
  assumes len: "length rs = length ids"
  shows "\<exists>tr'. drive oi od (schedule lat i (drop i rs)) (loop_from od ids i n u tr)
             = (fst (outcome oi od (drop i (fetched ids rs)) n u),
                fst (snd (outcome oi od (drop i (fetched ids rs)) n u)), tr')
           \<and> callbacks tr' = callbacks tr @ snd (snd (outcome oi od (drop i (fetched ids rs)) n u))"
proof (induction "length ids - i" arbitrary: i n u tr rule: less_induct)
  case less
  show ?case
  proof (cases "i < length ids")
    case False
    then have d: "drop i rs = []" "drop i (fetched ids rs) = []" using len by (simp_all add: fetched_def)
    from False have l: "loop_from od ids i n u tr = (Returned, od n u, tr @ [OnDone n])"
      by (simp add: loop_from_def)
    show ?thesis
      unfolding d l by (simp add: outcome_def callbacks_def)
  next
    case True
    let ?K = MAX_CONCURRENT_REQUESTS
    let ?rsr = "drop i rs"
    let ?chunk = "slice ids i (i + ?K)"
    let ?js = "sort_key (\<lambda>j. lat (i + j)) [0..<min ?K (length ?rsr)]"
    let ?items = "map (\<lambda>j. snd (fetchItemDetails (?chunk ! j)) (?rsr ! j)) [0..<length ?chunk]"
    let ?tr2 = "tr @ map (\<lambda>ident. Fetch (fst (fetchItemDetails ident))) ?chunk @ map (\<lambda>j. Resolved (ITEM_API (?chunk ! j)) (snd (fetchItemDetails (?chunk ! j)) (?rsr ! j))) ?js"
    have K: "0 < ?K" by (simp add: MAX_CONCURRENT_REQUESTS_def)
    have ne: "?rsr \<noteq> []" using True len by simp
    have chunk: "?chunk = take ?K (drop i ids)" by (simp add: slice_def)
    have cl: "length ?chunk = min ?K (length ?rsr)" using len by (simp add: chunk)
    have cne: "?chunk \<noteq> []" using True K by (simp add: chunk)
    have sched: "schedule lat i ?rsr = map (\<lambda>j. (j, ?rsr ! j)) ?js @ schedule lat (i + ?K) (drop (i + ?K) rs)"
      using schedule_unfold[OF ne, of lat i] by (simp add: add.commute)
    have l: "loop_from od ids i n u tr
       = (Awaiting \<lparr>task_ids = ids, task_i = i, validItemsCount = n,
            batchPromises = map (\<lambda>ident. case fetchItemDetails ident of (rq, h) \<Rightarrow> Pending rq h) ?chunk\<rparr>,
          u, tr @ map (\<lambda>ident. Fetch (fst (fetchItemDetails ident))) ?chunk)"
      using True by (simp add: loop_from_def Let_def)
    have dj: "distinct ?js" by simp
    have sj: "set ?js = {0..<length ?chunk}" by (simp add: cl)
    have first: "drive oi od (map (\<lambda>j. (j, ?rsr ! j)) ?js) (loop_from od ids i n u tr)
       = resume oi od \<lparr>task_ids = ids, task_i = i, validItemsCount = n, batchPromises = []\<rparr> ?items u ?tr2"
      unfolding l using fresh_chunk[OF cne dj sj, of oi od "\<lambda>j. ?rsr ! j" ids i n u] by simp
    have items: "?items = take ?K (drop i (fetched ids rs))"
    proof -
      have "take ?K (drop i (fetched ids rs)) = fetched ?chunk (take ?K ?rsr)"
        by (simp add: fetched_drop fetched_take chunk)
      also have "\<dots> = map (\<lambda>j. snd (fetchItemDetails (?chunk ! j)) (take ?K ?rsr ! j)) [0..<length ?chunk]"
        by (rule fetched_nth) (simp add: cl)
      also have "\<dots> = ?items" by (auto simp: cl)
      finally show ?thesis by simp
    qed
    have split: "drop i (fetched ids rs) = ?items @ drop (i + ?K) (fetched ids rs)"
      unfolding items by (metis append_take_drop_id drop_drop add.commute)
    obtain r u1 cs where fe: "forEach oi ?items n u = (r, u1, cs)" by (cases "forEach oi ?items n u")
    note cb = forEach_callbacks[OF fe]
    show ?thesis
    proof (cases r)
      case (Inl e)
      have o: "outcome oi od (drop i (fetched ids rs)) n u = (Threw e, u1, cs)"
        by (subst split) (simp add: outcome_append fe Inl)
      have "drive oi od (schedule lat i ?rsr) (loop_from od ids i n u tr) = (Threw e, u1, ?tr2 @ cs)"
        unfolding sched drive_append first by (simp add: resume_def fe Inl)
      with o cb show ?thesis by simp
    next
      case (Inr n')
      have lt: "length ids - (i + ?K) < length ids - i" using True K by simp
      from less[OF lt, of n' u1 "?tr2 @ cs"] obtain tr' where
        ih: "drive oi od (schedule lat (i + ?K) (drop (i + ?K) rs)) (loop_from od ids (i + ?K) n' u1 (?tr2 @ cs))
             = (fst (outcome oi od (drop (i + ?K) (fetched ids rs)) n' u1),
                fst (snd (outcome oi od (drop (i + ?K) (fetched ids rs)) n' u1)), tr')"
        and cbs: "callbacks tr' = callbacks (?tr2 @ cs) @ snd (snd (outcome oi od (drop (i + ?K) (fetched ids rs)) n' u1))"
        by blast
      obtain st u2 cs' where o2: "outcome oi od (drop (i + ?K) (fetched ids rs)) n' u1 = (st, u2, cs')"
        by (cases "outcome oi od (drop (i + ?K) (fetched ids rs)) n' u1")
      have o: "outcome oi od (drop i (fetched ids rs)) n u = (st, u2, cs @ cs')"
        by (subst split) (simp add: outcome_append fe Inr o2)
      have "drive oi od (schedule lat i ?rsr) (loop_from od ids i n u tr) = (st, u2, tr')"
        unfolding sched drive_append first using ih by (simp add: resume_def fe Inr o2)
      with o cbs cb o2 show ?thesis by simp
    qed
  qed
qed

lemma settled_batch_outcome:
  assumes "length rs = length ids"
  shows "fst (settled_batch oi od lat ids rs u tr) = fst (outcome oi od (fetched ids rs) 0 u)"
    and "fst (snd (settled_batch oi od lat ids rs u tr)) = fst (snd (outcome oi od (fetched ids rs) 0 u))"
    and "callbacks (snd (snd (settled_batch oi od lat ids rs u tr)))
           = callbacks tr @ snd (snd (outcome oi od (fetched ids rs) 0 u))"
proof -
  from loop_outcome[OF assms, of oi od lat 0 0 u tr] obtain tr' where
    "settled_batch oi od lat ids rs u tr
       = (fst (outcome oi od (fetched ids rs) 0 u), fst (snd (outcome oi od (fetched ids rs) 0 u)), tr')"
    "callbacks tr' = callbacks tr @ snd (snd (outcome oi od (fetched ids rs) 0 u))"
    by (auto simp: settled_batch_def fetchItemsWithConcurrency_def)
  then show "fst (settled_batch oi od lat ids rs u tr) = fst (outcome oi od (fetched ids rs) 0 u)"
    and "fst (snd (settled_batch oi od lat ids rs u tr)) = fst (snd (outcome oi od (fetched ids rs) 0 u))"
    and "callbacks (snd (snd (settled_batch oi od lat ids rs u tr)))
           = callbacks tr @ snd (snd (outcome oi od (fetched ids rs) 0 u))"
    by simp_all
qed

section \<open>The calls of the callbacks\<close>

lemma obs_append [simp]:
  "called_items (xs @ ys) = called_items xs @ called_items ys"
  "accepted_items (xs @ ys) = accepted_items xs @ accepted_items ys"
  "raised (xs @ ys) = raised xs @ raised ys"
  "done_calls (xs @ ys) = done_calls xs @ done_calls ys"
  by (simp_all add: called_items_def accepted_items_def raised_def done_calls_def)

lemma obs_Cons [simp]:
  "called_items (OnItem it r # tr) = it # called_items tr"
  "accepted_items (OnItem it (Inr b) # tr) = (if b then it # accepted_items tr else accepted_items tr)"
  "accepted_items (OnItem it (Inl e) # tr) = accepted_items tr"
  "raised (OnItem it (Inl e) # tr) = e # raised tr"
  "raised (OnItem it (Inr b) # tr) = raised tr"
  "done_calls (OnItem it r # tr) = done_calls tr"
  "done_calls (OnDone n # tr) = n # done_calls tr"
  "called_items (OnDone n # tr) = called_items tr"
  "accepted_items (OnDone n # tr) = accepted_items tr"
  "raised (OnDone n # tr) = raised tr"
  by (simp_all add: called_items_def accepted_items_def raised_def done_calls_def)

lemma obs_Nil [simp]:
  "called_items [] = []" "accepted_items [] = []" "raised [] = []" "done_calls [] = []"
  by (simp_all add: called_items_def accepted_items_def raised_def done_calls_def)

lemma obs_callbacks:
  "called_items (callbacks tr) = called_items tr"
  "accepted_items (callbacks tr) = accepted_items tr"
  "raised (callbacks tr) = raised tr"
  "done_calls (callbacks tr) = done_calls tr"
proof -
  have "called_items (callbacks tr) = called_items tr \<and> accepted_items (callbacks tr) = accepted_items tr
     \<and> raised (callbacks tr) = raised tr \<and> done_calls (callbacks tr) = done_calls tr"
  proof (induction tr)
    case Nil
    show ?case by (simp add: callbacks_def)
  next
    case (Cons c tr)
    then show ?case
      by (cases c) (auto simp: callbacks_def called_items_def accepted_items_def raised_def done_calls_def)
  qed
  then show "called_items (callbacks tr) = called_items tr" "accepted_items (callbacks tr) = accepted_items tr"
    "raised (callbacks tr) = raised tr" "done_calls (callbacks tr) = done_calls tr" by simp_all
qed

lemma forEach_calls:
  "forEach oi items n u = (r, u', cs) \<Longrightarrow>
     done_calls cs = [] \<and> prefix (called_items cs) (present items)
     \<and> (case r of
           Inr n' \<Rightarrow> n' = n + length (accepted_items cs) \<and> called_items cs = present items \<and> raised cs = []
         | Inl e \<Rightarrow> raised cs = [e])"
proof (induction oi items n u arbitrary: r u' cs rule: forEach.induct)
  case (1 oi n u)
  then show ?case by auto
next
  case (2 oi batchItems n u)
  then show ?case by (cases r) auto
next
  case (3 oi it batchItems n u)
  obtain r1 u1 where o: "oi it u = (r1, u1)" by (cases "oi it u")
  show ?case
  proof (cases r1)
    case (Inl e)
    with "3.prems" o show ?thesis by auto
  next
    case (Inr b)
    obtain r2 u2 cs2 where fe: "forEach oi batchItems (if b then n + 1 else n) u1 = (r2, u2, cs2)"
      by (cases "forEach oi batchItems (if b then n + 1 else n) u1")
    from "3.IH"[OF o[symmetric] Inr fe] "3.prems" o Inr fe show ?thesis
      by (cases r2) auto
  qed
qed

lemma called_items_map [simp]: "called_items (map (\<lambda>it. OnItem it (h it)) xs) = xs"
  by (induction xs) simp_all

lemma accepted_items_feed [simp]:
  "accepted_items (map (\<lambda>it. OnItem it (if valid f it then (if item_title it = None then Inl TypeError else Inr True) else Inr False)) xs)
     = filter (\<lambda>it. valid f it \<and> item_title it \<noteq> None) xs"
  by (induction xs) simp_all

lemma done_calls_map [simp]: "done_calls (map (\<lambda>it. OnItem it (h it)) xs) = []"
  by (induction xs) simp_all

lemma takeWhile_all: "\<forall>x\<in>set xs. P x \<Longrightarrow> takeWhile P xs = xs"
  by (induction xs) simp_all

section \<open>Requests in flight\<close>

lemma watch_None [simp]: "fold watch tr None = None"
  by (induction tr) auto

lemma watch_fetches:
  "k + length xs \<le> MAX_CONCURRENT_REQUESTS \<Longrightarrow> xs \<noteq> [] \<Longrightarrow> issuing \<or> k = 0 \<Longrightarrow>
   fold watch (map (\<lambda>x. Fetch (g x)) xs) (Some (issuing, k, 0)) = Some (True, k + length xs, 0)"
proof (induction xs arbitrary: issuing k)
  case Nil
  then show ?case by simp
next
  case (Cons x xs)
  show ?case
  proof (cases "xs = []")
    case True
    with Cons.prems show ?thesis by auto
  next
    case False
    from Cons.prems have "Suc k + length xs \<le> MAX_CONCURRENT_REQUESTS" by simp
    from Cons.IH[OF this False, of True] Cons.prems show ?thesis by auto
  qed
qed

lemma watch_forEach:
  "forEach oi items n u = (r, u', cs) \<Longrightarrow>
   \<exists>b' w'. fold watch cs (Some (b, 0, length (present items) + x)) = Some (b', 0, w')
      \<and> (case r of Inr n' \<Rightarrow> w' = x | Inl e \<Rightarrow> True)"
proof (induction oi items n u arbitrary: r u' cs b rule: forEach.induct)
  case (1 oi n u)
  then show ?case by auto
next
  case (2 oi batchItems n u)
  then show ?case by auto
next
  case (3 oi it batchItems n u)
  obtain r1 u1 where o: "oi it u = (r1, u1)" by (cases "oi it u")
  show ?case
  proof (cases r1)
    case (Inl e)
    with "3.prems" o show ?thesis by auto
  next
    case (Inr b')
    obtain r2 u2 cs2 where fe: "forEach oi batchItems (if b' then n + 1 else n) u1 = (r2, u2, cs2)"
      by (cases "forEach oi batchItems (if b' then n + 1 else n) u1")
    from "3.IH"[OF o[symmetric] Inr fe, of False] "3.prems" o Inr fe show ?thesis
      by auto
  qed
qed

lemma pending_settle:
  "j < length ps \<Longrightarrow> is_pending (ps ! j) \<Longrightarrow>
   length (filter is_pending ps) = Suc (length (filter is_pending (ps[j := Settled v])))"
proof (induction ps arbitrary: j)
  case Nil
  then show ?case by simp
next
  case (Cons p ps)
  then show ?case by (cases j) auto
qed

lemma has_item_settle:
  "j < length ps \<Longrightarrow> is_pending (ps ! j) \<Longrightarrow>
   length (filter has_item (ps[j := Settled v]))
     = (case v of None \<Rightarrow> length (filter has_item ps) | Some it \<Rightarrow> length (filter has_item ps) + 1)"
proof (induction ps arbitrary: j)
  case Nil
  then show ?case by simp
next
  case (Cons p ps)
  show ?case
  proof (cases j)
    case 0
    with Cons.prems show ?thesis by (cases p; cases v) auto
  next
    case (Suc j')
    with Cons.prems Cons.IH[of j'] show ?thesis by (cases v) auto
  qed
qed

lemma promise_all_has_item:
  "promise_all ps = Some vs \<Longrightarrow> length (filter has_item ps) = length (present vs)"
proof (induction ps arbitrary: vs rule: promise_all.induct)
  case 1
  then show ?case by simp
next
  case (2 rq h ps)
  then show ?case by simp
next
  case (3 v ps)
  then show ?case by (cases v) auto
qed

lemma has_item_fresh:
  "filter has_item (map (\<lambda>ident. Pending (ITEM_API ident) (snd (fetchItemDetails ident))) xs) = []"
  by (induction xs) auto

lemma calm_loop_from:
  assumes "watched tr = Some (b, 0, 0)"
  shows "calm (loop_from od ids i n u tr)"
proof (cases "i < length ids")
  case True
  let ?chunk = "slice ids i (i + MAX_CONCURRENT_REQUESTS)"
  have ne: "?chunk \<noteq> []" using True by (simp add: slice_def MAX_CONCURRENT_REQUESTS_def)
  have le: "0 + length ?chunk \<le> MAX_CONCURRENT_REQUESTS" by (simp add: slice_def)
  have p: "filter is_pending (map (\<lambda>ident. Pending (ITEM_API ident) (snd (fetchItemDetails ident))) ?chunk)
      = map (\<lambda>ident. Pending (ITEM_API ident) (snd (fetchItemDetails ident))) ?chunk"
    by (induction ?chunk) auto
  from watch_fetches[OF le ne, of b "\<lambda>ident. fst (fetchItemDetails ident)"] assms True ne p
  show ?thesis
    by (auto simp: calm_def loop_from_def Let_def watched_def mk_promise has_item_fresh)
next
  case False
  with assms show ?thesis by (auto simp: calm_def loop_from_def watched_def)
qed

lemma calm_deliver:
  assumes "calm cfg"
  shows "calm (deliver oi od j res cfg)"
proof -
  obtain st u tr where cfg: "cfg = (st, u, tr)" by (cases cfg)
  show ?thesis
  proof (cases st)
    case Returned
    with assms cfg show ?thesis by (simp add: deliver_def)
  next
    case (Threw e)
    with assms cfg show ?thesis by (simp add: deliver_def)
  next
    case (Awaiting t)
    obtain st' u' tr' where d: "deliver oi od j res (Awaiting t, u, tr) = (st', u', tr')"
      by (cases "deliver oi od j res (Awaiting t, u, tr)")
    from assms cfg Awaiting obtain b where
      w: "fold watch tr (Some (False, 0, 0))
            = Some (b, length (filter is_pending (batchPromises t)), length (filter has_item (batchPromises t)))"
      and ne: "batchPromises t \<noteq> []"
      by (auto simp: calm_def watched_def)
    from d have "calm (st', u', tr')"
    proof (cases rule: deliver_cases)
      case ignored
      with assms cfg Awaiting show ?thesis by simp
    next
      case (settled rq h)
      let ?ps = "(batchPromises t)[j := Settled (h res)]"
      from pending_settle[OF settled(1), of "h res"] settled(2)
      have pe: "length (filter is_pending (batchPromises t)) = Suc (length (filter is_pending ?ps))"
        by simp
      from has_item_settle[OF settled(1), of "h res"] settled(2)
      have hi: "length (filter has_item ?ps)
          = (case h res of None \<Rightarrow> length (filter has_item (batchPromises t))
             | Some it \<Rightarrow> length (filter has_item (batchPromises t)) + 1)"
        by simp
      from w pe hi have "fold watch (tr @ [Resolved rq (h res)]) (Some (False, 0, 0))
          = Some (False, length (filter is_pending ?ps), length (filter has_item ?ps))"
        by simp
      with settled ne show ?thesis by (auto simp: calm_def watched_def)
    next
      case (threw rq h batchItems e cs)
      let ?ps = "(batchPromises t)[j := Settled (h res)]"
      from pending_settle[OF threw(1), of "h res"] threw(2) promise_all_Some_pending[OF threw(3)]
      have one: "length (filter is_pending (batchPromises t)) = Suc 0" by simp
      from has_item_settle[OF threw(1), of "h res"] threw(2) promise_all_has_item[OF threw(3)]
      have hi: "length (present batchItems)
          = (case h res of None \<Rightarrow> length (filter has_item (batchPromises t))
             | Some it \<Rightarrow> length (filter has_item (batchPromises t)) + 1)"
        by simp
      from w one hi have s1: "fold watch (tr @ [Resolved rq (h res)]) (Some (False, 0, 0))
          = Some (False, 0, length (present batchItems) + 0)"
        by simp
      from watch_forEach[OF threw(4), of False 0] obtain b' w' where
        "fold watch cs (Some (False, 0, length (present batchItems) + 0)) = Some (b', 0, w')" by blast
      with s1 have "fold watch (tr @ [Resolved rq (h res)] @ cs) (Some (False, 0, 0)) = Some (b', 0, w')"
        by simp
      with threw(5,6) show ?thesis by (auto simp: calm_def watched_def)
    next
      case (looped rq h batchItems n u1 cs)
      let ?ps = "(batchPromises t)[j := Settled (h res)]"
      from pending_settle[OF looped(1), of "h res"] looped(2) promise_all_Some_pending[OF looped(3)]
      have one: "length (filter is_pending (batchPromises t)) = Suc 0" by simp
      from has_item_settle[OF looped(1), of "h res"] looped(2) promise_all_has_item[OF looped(3)]
      have hi: "length (present batchItems)
          = (case h res of None \<Rightarrow> length (filter has_item (batchPromises t))
             | Some it \<Rightarrow> length (filter has_item (batchPromises t)) + 1)"
        by simp
      from w one hi have s1: "fold watch (tr @ [Resolved rq (h res)]) (Some (False, 0, 0))
          = Some (False, 0, length (present batchItems) + 0)"
        by simp
      from watch_forEach[OF looped(4), of False 0] obtain b' where
        "fold watch cs (Some (False, 0, length (present batchItems) + 0)) = Some (b', 0, 0)" by auto
      with s1 have "watched (tr @ [Resolved rq (h res)] @ cs) = Some (b', 0, 0)"
        by (simp add: watched_def)
      from calm_loop_from[OF this, of od "task_ids t" "task_i t + MAX_CONCURRENT_REQUESTS" n u1] looped(5)
      show ?thesis by simp
    qed
    with d cfg Awaiting show ?thesis by simp
  qed
qed

lemma calm_drive: "calm cfg \<Longrightarrow> calm (drive oi od answers cfg)"
proof (induction answers arbitrary: cfg)
  case Nil
  then show ?case by simp
next
  case (Cons a answers)
  obtain j res where a: "a = (j, res)" by (cases a)
  from Cons.IH[OF calm_deliver[OF Cons.prems, of oi od j res]] show ?case
    by (simp add: a drive_Cons)
qed

lemma calm_call: "calm (fetchItemsWithConcurrency ids oi od u [])"
  unfolding fetchItemsWithConcurrency_def
  by (rule calm_loop_from[of _ False]) (simp add: watched_def)

lemma calm_watched:
  "calm cfg \<Longrightarrow> \<exists>b w. watched (snd (snd cfg)) = Some (b, pending (fst cfg), w)"
  by (cases cfg; cases "fst cfg") (auto simp: calm_def)

lemma watch_prefix:
  "fold watch tr (Some (b, k, w)) = Some (b', k', w') \<Longrightarrow> k \<le> MAX_CONCURRENT_REQUESTS \<Longrightarrow> prefix p tr \<Longrightarrow>
     0 \<le> int k + in_flight p \<and> int k + in_flight p \<le> int MAX_CONCURRENT_REQUESTS"
proof (induction tr arbitrary: b k w p)
  case Nil
  then show ?case by (simp add: in_flight_def)
next
  case (Cons c tr)
  show ?case
  proof (cases p)
    case Nil
    with Cons.prems show ?thesis by (simp add: in_flight_def)
  next
    case (Cons c' p')
    with Cons.prems(3) have c': "c' = c" and pp: "prefix p' tr" by simp_all
    from Cons.prems(1) obtain b1 k1 w1 where w1: "watch c (Some (b, k, w)) = Some (b1, k1, w1)"
      by (cases "watch c (Some (b, k, w))") auto
    with Cons.prems(1) have rest: "fold watch tr (Some (b1, k1, w1)) = Some (b', k', w')" by simp
    from w1 Cons.prems(2) have k1: "k1 \<le> MAX_CONCURRENT_REQUESTS" and fl: "int k1 = int k + flight c"
      by (cases c; auto split: if_splits)+
    from Cons.IH[OF rest k1 pp] fl c' Cons show ?thesis
      by (simp add: in_flight_def)
  qed
qed

lemma watch_count:
  "fold watch tr (Some (b, k, w)) = Some (b', k', w') \<Longrightarrow> int k' = int k + in_flight tr"
proof (induction tr arbitrary: b k w)
  case Nil
  then show ?case by (simp add: in_flight_def)
next
  case (Cons c tr)
  from Cons.prems obtain b1 k1 w1 where w1: "watch c (Some (b, k, w)) = Some (b1, k1, w1)"
    by (cases "watch c (Some (b, k, w))") auto
  with Cons.prems have rest: "fold watch tr (Some (b1, k1, w1)) = Some (b', k', w')" by simp
  from w1 have fl: "int k1 = int k + flight c"
    by (cases c) (auto split: if_splits)
  from Cons.IH[OF rest] fl show ?case by (simp add: in_flight_def)
qed

lemma loop_from_shift:
  "loop_from od ids i n u (tr0 @ tr) = (case loop_from od ids i n u tr of (st, u', tr') \<Rightarrow> (st, u', tr0 @ tr'))"
  by (simp add: loop_from_def Let_def)

lemma deliver_shift:
  "deliver oi od j res (st, u, tr0 @ tr) = (case deliver oi od j res (st, u, tr) of (st', u', tr') \<Rightarrow> (st', u', tr0 @ tr'))"
proof (cases st)
  case (Awaiting t)
  have l: "\<And>n u1 cs c. loop_from od (task_ids t) (task_i t + MAX_CONCURRENT_REQUESTS) n u1 (tr0 @ tr @ c # cs)
      = (case loop_from od (task_ids t) (task_i t + MAX_CONCURRENT_REQUESTS) n u1 (tr @ c # cs) of
           (st, u', tr') \<Rightarrow> (st, u', tr0 @ tr'))"
    using loop_from_shift[of od "task_ids t" _ _ _ tr0] by simp
  show ?thesis
    by (simp add: Awaiting deliver_def resume_def Let_def l
        split: promise.splits option.splits prod.splits sum.splits)
next
  case Returned
  then show ?thesis by (simp add: deliver_def)
next
  case (Threw e)
  then show ?thesis by (simp add: deliver_def)
qed

lemma drive_shift:
  "drive oi od answers (st, u, tr0 @ tr) = (case drive oi od answers (st, u, tr) of (st', u', tr') \<Rightarrow> (st', u', tr0 @ tr'))"
proof (induction answers arbitrary: st u tr)
  case Nil
  show ?case by simp
next
  case (Cons a answers)
  obtain j res where a: "a = (j, res)" by (cases a)
  obtain st1 u1 tr1 where d: "deliver oi od j res (st, u, tr) = (st1, u1, tr1)"
    by (cases "deliver oi od j res (st, u, tr)")
  from Cons[of st1 u1 tr1] d show ?case
    by (simp add: a drive_Cons deliver_shift)
qed

lemma settled_batch_shift:
  "settled_batch oi od lat ids rs u tr0
     = (case settled_batch oi od lat ids rs u [] of (st, u', tr') \<Rightarrow> (st, u', tr0 @ tr'))"
proof -
  obtain st u1 tr1 where l: "loop_from od ids 0 0 u [] = (st, u1, tr1)" by (cases "loop_from od ids 0 0 u []")
  from loop_from_shift[of od ids 0 0 u tr0 "[]"] l drive_shift[of oi od "schedule lat 0 rs" st u1 tr0 tr1]
  show ?thesis by (simp add: settled_batch_def fetchItemsWithConcurrency_def)
qed

lemma settled_batch_watched:
  "watched (snd (snd (settled_batch oi od lat ids rs u []))) \<noteq> None"
proof -
  have "calm (settled_batch oi od lat ids rs u [])"
    unfolding settled_batch_def by (rule calm_drive[OF calm_call])
  from calm_watched[OF this] show ?thesis by auto
qed

section \<open>No request is repeated\<close>

lemma requests_append [simp]: "requests (xs @ ys) = requests xs @ requests ys"
  by (simp add: requests_def)

lemma requests_simps [simp]:
  "requests [] = []"
  "requests (Fetch rq # tr) = rq # requests tr"
  "requests (Resolved rq v # tr) = requests tr"
  "requests (OnItem it r # tr) = requests tr"
  "requests (OnDone n # tr) = requests tr"
  by (simp_all add: requests_def)

lemma requests_Fetch [simp]: "requests (map (\<lambda>x. Fetch (g x)) xs) = map g xs"
  by (induction xs) simp_all

lemma requests_forEach: "forEach oi items n u = (r, u', cs) \<Longrightarrow> requests cs = []"
  by (induction oi items n u arbitrary: r u' cs rule: forEach.induct)
     (auto split: prod.splits sum.splits)

lemma take_slice: "take i ids @ slice ids i (i + k) = take (i + k) ids"
  by (simp add: slice_def take_add)

lemma asked_loop_from:
  assumes "requests tr = map ITEM_API (take i ids)"
  shows "asked ids (loop_from od ids i n u tr)"
proof (cases "i < length ids")
  case True
  have "map ITEM_API (take i ids) @ map ITEM_API (slice ids i (i + MAX_CONCURRENT_REQUESTS))
      = map ITEM_API (take (i + MAX_CONCURRENT_REQUESTS) ids)"
    using take_slice[of i ids MAX_CONCURRENT_REQUESTS] by (simp flip: map_append)
  with True assms show ?thesis
    by (simp add: asked_def loop_from_def Let_def fetchItemDetails_def)
next
  case False
  with assms show ?thesis by (simp add: asked_def loop_from_def)
qed

lemma asked_deliver:
  assumes "asked ids cfg"
  shows "asked ids (deliver oi od j res cfg)"
proof -
  obtain st u tr where cfg: "cfg = (st, u, tr)" by (cases cfg)
  show ?thesis
  proof (cases st)
    case Returned
    with assms cfg show ?thesis by (simp add: deliver_def)
  next
    case (Threw e)
    with assms cfg show ?thesis by (simp add: deliver_def)
  next
    case (Awaiting t)
    obtain st' u' tr' where d: "deliver oi od j res (Awaiting t, u, tr) = (st', u', tr')"
      by (cases "deliver oi od j res (Awaiting t, u, tr)")
    from assms cfg Awaiting have ti: "task_ids t = ids"
      and rq: "requests tr = map ITEM_API (take (task_i t + MAX_CONCURRENT_REQUESTS) ids)"
      by (simp_all add: asked_def)
    from d have "asked ids (st', u', tr')"
    proof (cases rule: deliver_cases)
      case ignored
      with assms cfg Awaiting show ?thesis by simp
    next
      case (settled rq h)
      with ti rq show ?thesis by (simp add: asked_def)
    next
      case (threw rq' h batchItems e cs)
      from requests_forEach[OF threw(4)] threw(5,6) rq show ?thesis
        by (simp add: asked_def take_is_prefix take_map[symmetric])
    next
      case (looped rq' h batchItems n u1 cs)
      from requests_forEach[OF looped(4)] rq
      have "requests (tr @ [Resolved rq' (h res)] @ cs) = map ITEM_API (take (task_i t + MAX_CONCURRENT_REQUESTS) ids)"
        by simp
      from asked_loop_from[OF this, of od n u1] looped(5) ti show ?thesis by simp
    qed
    with d cfg Awaiting show ?thesis by simp
  qed
qed

lemma asked_drive: "asked ids cfg \<Longrightarrow> asked ids (drive oi od answers cfg)"
proof (induction answers arbitrary: cfg)
  case Nil
  then show ?case by simp
next
  case (Cons a answers)
  obtain j res where a: "a = (j, res)" by (cases a)
  from Cons.IH[OF asked_deliver[OF Cons.prems, of oi od j res]] show ?case
    by (simp add: a drive_Cons)
qed

lemma asked_call: "asked ids (fetchItemsWithConcurrency ids oi od u [])"
  unfolding fetchItemsWithConcurrency_def
  by (rule asked_loop_from) simp

lemma asked_prefix: "asked ids cfg \<Longrightarrow> prefix (requests (snd (snd cfg))) (map ITEM_API ids)"
  by (cases cfg; cases "fst cfg") (auto simp: asked_def take_is_prefix take_map[symmetric])

section \<open>A page of a feed\<close>

lemma onItemFetched_cases:
  "onItemFetched f it g =
     (if valid f it then
        (if item_title it = None then (Inl TypeError, g)
         else (Inr True, g\<lparr>surface := surface g @ [node_of f it]\<rparr>))
      else (Inr False, g))"
  by (cases f) (auto simp: onItemFetchedBest_def onItemFetchedLatest_def renderBestNewsItem_def
      renderLatestNewsItem_def escapeHTML_def node_of_def split: option.splits)

lemma forEach_feed:
  "forEach (onItemFetched f) items n g =
     ((if \<exists>it\<in>set (present items). raises f it then Inl TypeError
       else Inr (n + length (filter (valid f) (present items)))),
      g\<lparr>surface := surface g @ map (node_of f) (filter (valid f) (takeWhile (\<lambda>it. \<not> raises f it) (present items)))\<rparr>,
      map (\<lambda>it. OnItem it (if valid f it then (if item_title it = None then Inl TypeError else Inr True) else Inr False))
        (take (Suc (length (takeWhile (\<lambda>it. \<not> raises f it) (present items)))) (present items)))"
proof (induction items arbitrary: n g)
  case Nil
  show ?case by simp
next
  case (Cons a items)
  show ?case
  proof (cases a)
    case None
    with Cons show ?thesis by simp
  next
    case (Some it)
    have nr: "\<not> raises f it \<longleftrightarrow> \<not> valid f it \<or> item_title it \<noteq> None" by (simp add: raises_def)
    show ?thesis
    proof (cases "valid f it")
      case False
      then have o: "onItemFetched f it g = (Inr False, g)" by (simp add: onItemFetched_cases)
      from False have r: "\<not> raises f it" by (simp add: raises_def)
      from Some False o r Cons[of n g] show ?thesis by simp
    next
      case True
      show ?thesis
      proof (cases "item_title it = None")
        case True
        with \<open>valid f it\<close> have o: "onItemFetched f it g = (Inl TypeError, g)" by (simp add: onItemFetched_cases)
        from True \<open>valid f it\<close> have r: "raises f it" by (simp add: raises_def)
        from Some \<open>valid f it\<close> True o r show ?thesis by simp
      next
        case False
        with \<open>valid f it\<close> have o: "onItemFetched f it g = (Inr True, g\<lparr>surface := surface g @ [node_of f it]\<rparr>)"
          by (simp add: onItemFetched_cases)
        from False have r: "\<not> raises f it" by (simp add: raises_def)
        from Some \<open>valid f it\<close> False o r Cons[of "n + 1" "g\<lparr>surface := surface g @ [node_of f it]\<rparr>"] show ?thesis
          by simp
      qed
    qed
  qed
qed

lemma after_fetch_twice:
  "after_fetch (after_fetch m (Awaiting t, g, tr)) cfg = after_fetch m cfg"
proof -
  obtain st g' tr' where "cfg = (st, g', tr')" by (cases cfg)
  then show ?thesis by (cases st) simp_all
qed

lemma run_settled:
  "frame m = None \<Longrightarrow> run f (map (\<lambda>(j, res). Settle j res) answers) m = m"
  by (induction answers) (auto simp: run_def)

lemma run_settles:
  "run f (map (\<lambda>(j, res). Settle j res) answers) (after_fetch m cfg)
     = after_fetch m (drive (onItemFetched f) onBatchComplete answers cfg)"
proof (induction answers arbitrary: cfg)
  case Nil
  show ?case by (simp add: run_def)
next
  case (Cons a answers)
  obtain j res where a: "a = (j, res)" by (cases a)
  obtain st g tr where cfg: "cfg = (st, g, tr)" by (cases cfg)
  show ?case
  proof (cases st)
    case (Awaiting t)
    have "run f (map (\<lambda>(j, res). Settle j res) (a # answers)) (after_fetch m cfg)
        = run f (map (\<lambda>(j, res). Settle j res) answers) (step f (Settle j res) (after_fetch m cfg))"
      by (simp add: run_def a)
    also have "step f (Settle j res) (after_fetch m cfg)
        = after_fetch m (deliver (onItemFetched f) onBatchComplete j res cfg)"
      using after_fetch_twice[of m t g tr] by (simp add: cfg Awaiting)
    also have "run f (map (\<lambda>(j, res). Settle j res) answers) (after_fetch m (deliver (onItemFetched f) onBatchComplete j res cfg))
        = after_fetch m (drive (onItemFetched f) onBatchComplete answers (deliver (onItemFetched f) onBatchComplete j res cfg))"
      by (rule Cons.IH)
    finally show ?thesis by (simp add: a drive_Cons)
  next
    case Returned
    then show ?thesis using run_settled[of "after_fetch m cfg" f "a # answers"] by (simp add: cfg)
  next
    case (Threw e)
    then show ?thesis using run_settled[of "after_fetch m cfg" f "a # answers"] by (simp add: cfg)
  qed
qed

lemma load_page_drive:
  assumes "\<not> newsLoading (globals m)" "\<not> exhausted m"
  shows "load_page f lat rs m
       = after_fetch m (settled_batch (onItemFetched f) onBatchComplete lat (page_ids m) rs ((globals m)\<lparr>newsLoading := True\<rparr>) (calls m))"
proof -
  have "loadMoreNews f m
      = after_fetch m (fetchItemsWithConcurrency (page_ids m) (onItemFetched f) onBatchComplete
          ((globals m)\<lparr>newsLoading := True\<rparr>) (calls m))"
    using assms by (simp add: loadMoreNews_def exhausted_def page_ids_def Let_def)
  then show ?thesis
    by (simp add: load_page_def run_def settled_batch_def run_settles[unfolded run_def])
qed

lemma page_loaded:
  assumes a: "\<not> newsLoading (globals m)" "\<not> exhausted m" "length rs = length (page_ids m)"
  shows "surface (globals (load_page f lat rs m))
           = surface (globals m) @ map (node_of f) (filter (valid f)
               (takeWhile (\<lambda>it. \<not> raises f it) (present (fetched (page_ids m) rs))))"
    and "called_items (calls (load_page f lat rs m))
           = called_items (calls m) @ take (Suc (length (takeWhile (\<lambda>it. \<not> raises f it) (present (fetched (page_ids m) rs)))))
               (present (fetched (page_ids m) rs))"
    and "\<forall>it\<in>set (present (fetched (page_ids m) rs)). \<not> raises f it \<Longrightarrow>
           done_calls (calls (load_page f lat rs m))
             = done_calls (calls m) @ [length (filter (valid f) (present (fetched (page_ids m) rs)))]
         \<and> newsPage (globals (load_page f lat rs m)) = newsPage (globals m) + 1
         \<and> \<not> newsLoading (globals (load_page f lat rs m))
         \<and> uncaught (load_page f lat rs m) = uncaught m"
proof -
  let ?g1 = "(globals m)\<lparr>newsLoading := True\<rparr>"
  let ?its = "present (fetched (page_ids m) rs)"
  let ?sb = "settled_batch (onItemFetched f) onBatchComplete lat (page_ids m) rs ?g1 (calls m)"
  let ?o = "outcome (onItemFetched f) onBatchComplete (fetched (page_ids m) rs) 0 ?g1"
  note lp = load_page_drive[OF a(1,2), of f lat rs]
  note so = settled_batch_outcome[OF a(3), of "onItemFetched f" onBatchComplete lat ?g1 "calls m"]
  note fe = forEach_feed[of f "fetched (page_ids m) rs" 0 ?g1]
  obtain st g' tr' where sb: "?sb = (st, g', tr')" by (cases ?sb)
  have cb: "called_items tr' = called_items (callbacks tr')" "done_calls tr' = done_calls (callbacks tr')"
    by (simp_all add: obs_callbacks)
  show "surface (globals (load_page f lat rs m))
           = surface (globals m) @ map (node_of f) (filter (valid f) (takeWhile (\<lambda>it. \<not> raises f it) ?its))"
  proof (cases "\<exists>it\<in>set ?its. raises f it")
    case True
    with so(1,2) fe sb lp show ?thesis by (simp add: outcome_def)
  next
    case False
    with so(1,2) fe sb lp show ?thesis
      by (simp add: outcome_def onBatchComplete_def updateNewsLoadButton_def Let_def)
  qed
  show "called_items (calls (load_page f lat rs m))
           = called_items (calls m) @ take (Suc (length (takeWhile (\<lambda>it. \<not> raises f it) ?its))) ?its"
  proof (cases "\<exists>it\<in>set ?its. raises f it")
    case True
    with so(1,3) fe sb have "called_items (callbacks tr') = called_items (callbacks (calls m))
         @ take (Suc (length (takeWhile (\<lambda>it. \<not> raises f it) ?its))) ?its"
      by (simp add: outcome_def)
    with sb lp cb True so(1) fe show ?thesis by (simp add: obs_callbacks outcome_def)
  next
    case False
    with so(1,3) fe sb have "called_items (callbacks tr') = called_items (callbacks (calls m))
         @ take (Suc (length (takeWhile (\<lambda>it. \<not> raises f it) ?its))) ?its"
      by (simp add: outcome_def)
    with sb lp cb False so(1) fe show ?thesis by (simp add: obs_callbacks outcome_def)
  qed
  show "done_calls (calls (load_page f lat rs m))
             = done_calls (calls m) @ [length (filter (valid f) ?its)]
         \<and> newsPage (globals (load_page f lat rs m)) = newsPage (globals m) + 1
         \<and> \<not> newsLoading (globals (load_page f lat rs m))
         \<and> uncaught (load_page f lat rs m) = uncaught m"
    if nr: "\<forall>it\<in>set ?its. \<not> raises f it"
  proof -
    from nr have F: "\<not> (\<exists>it\<in>set ?its. raises f it)" by simp
    with so(1,3) fe sb have "done_calls (callbacks tr') = done_calls (callbacks (calls m))
         @ [length (filter (valid f) ?its)]"
      by (simp add: outcome_def)
    with sb lp cb F so(1,2) fe show ?thesis
      by (simp add: obs_callbacks outcome_def onBatchComplete_def updateNewsLoadButton_def Let_def)
  qed
qed

section \<open>A batch whose requests are all answered\<close>

text \<open>
  Take a call of \<open>fetchItemsWithConcurrency\<close> and let the transport answer every request of
  it, in any order within a chunk, by a story, by \<open>null\<close> or by a failure. If no call of
  \<open>onItemFetched\<close> raises, the function returns, \<open>onBatchComplete\<close> is called exactly once,
  as the last of the callbacks, with the number of calls of \<open>onItemFetched\<close> that returned
  true, and \<open>onItemFetched\<close> has been called on exactly the results that are not absent. If
  a call raises, the function ends with that exception and \<open>onBatchComplete\<close> has not been
  called.
\<close>

lemma settled_batch_calls:
  assumes "length rs = length ids"
  shows "(raised (snd (snd (settled_batch oi od lat ids rs u []))) = [] \<longrightarrow>
            fst (settled_batch oi od lat ids rs u []) = Returned
          \<and> done_calls (snd (snd (settled_batch oi od lat ids rs u [])))
              = [length (accepted_items (snd (snd (settled_batch oi od lat ids rs u []))))]
          \<and> callbacks (snd (snd (settled_batch oi od lat ids rs u []))) \<noteq> []
          \<and> last (callbacks (snd (snd (settled_batch oi od lat ids rs u []))))
              = OnDone (length (accepted_items (snd (snd (settled_batch oi od lat ids rs u [])))))
          \<and> called_items (snd (snd (settled_batch oi od lat ids rs u []))) = present (fetched ids rs))
       \<and> (raised (snd (snd (settled_batch oi od lat ids rs u []))) \<noteq> [] \<longrightarrow>
            fst (settled_batch oi od lat ids rs u []) = Threw (hd (raised (snd (snd (settled_batch oi od lat ids rs u [])))))
          \<and> done_calls (snd (snd (settled_batch oi od lat ids rs u []))) = [])"
proof -
  let ?tr = "snd (snd (settled_batch oi od lat ids rs u []))"
  let ?st = "fst (settled_batch oi od lat ids rs u [])"
  note so = settled_batch_outcome[OF assms, of oi od lat u "[]", simplified]
  obtain r u1 cs where fe: "forEach oi (fetched ids rs) 0 u = (r, u1, cs)"
    by (cases "forEach oi (fetched ids rs) 0 u")
  note fc = forEach_calls[OF fe]
  show ?thesis
  proof (cases r)
    case (Inl e)
    with fe so have st: "?st = Threw e" and cb: "callbacks ?tr = cs" by (simp_all add: outcome_def)
    from cb have "raised ?tr = raised cs" "done_calls ?tr = done_calls cs"
      by (metis obs_callbacks(3), metis obs_callbacks(4))
    with fc Inl st show ?thesis by simp
  next
    case (Inr n)
    with fe so have st: "?st = Returned" and cb: "callbacks ?tr = cs @ [OnDone n]" by (simp_all add: outcome_def)
    from cb have "raised ?tr = raised (cs @ [OnDone n])" "done_calls ?tr = done_calls (cs @ [OnDone n])"
      "accepted_items ?tr = accepted_items (cs @ [OnDone n])" "called_items ?tr = called_items (cs @ [OnDone n])"
      by (metis obs_callbacks(3), metis obs_callbacks(4), metis obs_callbacks(2), metis obs_callbacks(1))
    with fc Inr st cb show ?thesis by simp
  qed
qed

lemma settled_batch_calls_sample:
  "length answers4 = length [1, 2, 3, 4::nat]
   \<and> raised (snd (snd (settled_batch (onItemFetched Best) onBatchComplete backwards [1, 2, 3, 4] answers4
          (globals (start [1, 2, 3, 4] False)) []))) = []
   \<and> fst (settled_batch (onItemFetched Best) onBatchComplete backwards [1, 2, 3, 4] answers4
          (globals (start [1, 2, 3, 4] False)) []) = Returned
   \<and> done_calls (snd (snd (settled_batch (onItemFetched Best) onBatchComplete backwards [1, 2, 3, 4] answers4
          (globals (start [1, 2, 3, 4] False)) []))) = [2]
   \<and> length [ok_story 1, untitled] = length [1, 2::nat]
   \<and> raised (snd (snd (settled_batch (onItemFetched Best) onBatchComplete backwards [1, 2] [ok_story 1, untitled]
          (globals (start [1, 2] False)) []))) \<noteq> []
   \<and> fst (settled_batch (onItemFetched Best) onBatchComplete backwards [1, 2] [ok_story 1, untitled]
          (globals (start [1, 2] False)) []) = Threw TypeError
   \<and> done_calls (snd (snd (settled_batch (onItemFetched Best) onBatchComplete backwards [1, 2] [ok_story 1, untitled]
          (globals (start [1, 2] False)) []))) = []"
proof -
  have l1: "length answers4 = length [1, 2, 3, 4::nat]" by (simp add: answers4_def)
  have r1: "raised (snd (snd (settled_batch (onItemFetched Best) onBatchComplete backwards [1, 2, 3, 4] answers4
          (globals (start [1, 2, 3, 4] False)) []))) = []"
    by (simp add: eval2_defs eval_defs)
  have a1: "length (accepted_items (snd (snd (settled_batch (onItemFetched Best) onBatchComplete backwards [1, 2, 3, 4] answers4
          (globals (start [1, 2, 3, 4] False)) [])))) = 2"
    by (simp add: eval2_defs eval_defs)
  have l2: "length [ok_story 1, untitled] = length [1, 2::nat]" by simp
  have r2: "raised (snd (snd (settled_batch (onItemFetched Best) onBatchComplete backwards [1, 2] [ok_story 1, untitled]
          (globals (start [1, 2] False)) []))) = [TypeError]"
    by (simp add: eval2_defs eval_defs)
  from settled_batch_calls[OF l1, of "onItemFetched Best" onBatchComplete backwards "globals (start [1, 2, 3, 4] False)"]
    settled_batch_calls[OF l2, of "onItemFetched Best" onBatchComplete backwards "globals (start [1, 2] False)"]
    l1 r1 a1 l2 r2
  show ?thesis by simp
qed

section \<open>Claims on the API client\<close>

text \<open>
  C8. \<open>fetchFromAPI\<close> and \<open>fetchItemDetails\<close> each issue the one request for their URL, and
  their result is fixed by the one answer to it. When \<open>fetch\<close> rejects, when the response is
  not \<open>ok\<close>, and when the body does not decode, the first returns the empty list and the
  second returns \<open>null\<close>; no exception reaches the caller. Nothing asks again: whatever the
  answers, failures included, the requests a call of the fetcher has sent are those for an
  initial part of its ids, each once and in order.
\<close>

theorem api_client_failures:
  "fst (fetchFromAPI url) = url
   \<and> fst (fetchItemDetails ident) = ITEM_API ident
   \<and> snd (fetchFromAPI url) Rejected = []
   \<and> snd (fetchFromAPI url) (Response False body) = []
   \<and> snd (fetchFromAPI url) (Response True Undecodable) = []
   \<and> snd (fetchItemDetails ident) Rejected = None
   \<and> snd (fetchItemDetails ident) (Response False body') = None
   \<and> snd (fetchItemDetails ident) (Response True Undecodable) = None
   \<and> prefix (requests (snd (snd (drive oi od answers (fetchItemsWithConcurrency ids oi od u [])))))
        (map ITEM_API ids)"
  using asked_prefix[OF asked_drive[OF asked_call[of ids oi od u], of oi od answers]]
  by (simp add: fetchFromAPI_def fetchItemDetails_def try_body_def)

section \<open>Claims on the validity check\<close>

text \<open>
  C10, as the code has it. The check before rendering does not read the title. An item that
  passes it is handed to the render function, whose outcome is that of \<open>escapeHTML\<close> on the
  title as it is: with a title the item is appended and the callback returns true, without
  one \<open>escapeHTML\<close> is called on the missing value and raises. The check passes exactly for
  the type \<open>story\<close> with a URL that is present and not the empty string (and, for the latest
  feed, a score of at least the threshold).
\<close>

theorem validity_ignores_title:
  "valid f (it\<lparr>item_title := t\<rparr>) = valid f it
   \<and> (valid f it \<longrightarrow>
        onItemFetched f it g =
          (case escapeHTML (item_title it) of
             Inl e \<Rightarrow> (Inl e, g)
           | Inr title \<Rightarrow>
               (Inr True, g\<lparr>surface := surface g @
                  [\<lparr>node_href = item_url it,
                    node_image = (case f of Best \<Rightarrow> Some (getImageByID (item_id it)) | Latest \<Rightarrow> None),
                    node_title = title, node_time = item_time it\<rparr>]\<rparr>)))
   \<and> (valid f it \<and> item_title it = None \<longrightarrow> onItemFetched f it g = (Inl TypeError, g))
   \<and> (valid f it \<longleftrightarrow>
        item_type it = ''story'' \<and> (\<exists>u. item_url it = Some u \<and> u \<noteq> [])
        \<and> (f = Latest \<longrightarrow> (case item_score it of None \<Rightarrow> 0 | Some sc \<Rightarrow> sc) \<ge> MIN_SCORE_LATEST))"
  by (cases f) (auto simp: onItemFetchedBest_def onItemFetchedLatest_def renderBestNewsItem_def
      renderLatestNewsItem_def escapeHTML_def truthy_def split: option.splits sum.splits)

theorem validity_ignores_title_witness:
  "valid Best (story 42 None (Some ''https://www.example.com/x''))
   \<and> item_title (story 42 None (Some ''https://www.example.com/x'')) = None
   \<and> onItemFetched Best (story 42 None (Some ''https://www.example.com/x'')) (globals (start [42] True))
       = (Inl TypeError, globals (start [42] True))"
proof -
  have v: "valid Best (story 42 None (Some ''https://www.example.com/x''))"
    by (simp add: story_def truthy_def)
  have t: "item_title (story 42 None (Some ''https://www.example.com/x'')) = None"
    by (simp add: story_def)
  from v t validity_ignores_title[where f = Best and g = "globals (start [42] True)"
      and it = "story 42 None (Some ''https://www.example.com/x'')"]
  show ?thesis by blast
qed

text \<open>
  The claim as it is written fails on a story whose URL is present and empty: the check
  returns false and nothing is rendered.
\<close>

theorem validity_ignores_title_counterexample:
  "item_type (story 42 (Some ''Ask'') (Some [])) = ''story''
   \<and> item_url (story 42 (Some ''Ask'') (Some [])) \<noteq> None
   \<and> \<not> valid Best (story 42 (Some ''Ask'') (Some []))
   \<and> onItemFetched Best (story 42 (Some ''Ask'') (Some [])) (globals (start [42] True))
       = (Inr False, globals (start [42] True))"
  by (simp add: story_def truthy_def onItemFetchedBest_def)

section \<open>Claims on the page cursor\<close>

text \<open>
  C5. In a state of either feed whose loading flag is set, \<open>loadMore...\<close> returns at its
  guard: ids, cursor, flag, surface and button are as before, and so is the list of calls
  made, so that no request is sent. And whatever has happened to a feed, while a batch
  fetch of it is outstanding its flag is set, so that a call of \<open>loadMore...\<close> changes
  nothing.
\<close>

theorem advance_while_loading_noop:
  "(newsLoading (globals m) \<longrightarrow> loadMoreBestNews m = m \<and> loadMoreLatestNews m = m)
   \<and> (frame (run f evs (start ids btn)) \<noteq> None \<longrightarrow>
        newsLoading (globals (run f evs (start ids btn)))
        \<and> step f Advance (run f evs (start ids btn)) = run f evs (start ids btn))"
proof -
  have 1: "newsLoading (globals m) \<longrightarrow> loadMoreBestNews m = m \<and> loadMoreLatestNews m = m"
    by (simp add: loadMoreBestNews_def loadMoreLatestNews_def loadMoreNews_def)
  have "inv ids (run f evs (start ids btn))" by (rule inv_run[OF inv_start])
  then have 2: "frame (run f evs (start ids btn)) \<noteq> None \<longrightarrow>
        newsLoading (globals (run f evs (start ids btn)))
        \<and> step f Advance (run f evs (start ids btn)) = run f evs (start ids btn)"
    by (simp add: inv_def loadMoreNews_def)
  from 1 2 show ?thesis by blast
qed

theorem advance_while_loading_noop_witness:
  "newsLoading (globals (run Best [Advance, Settle 1 (ok_story 2)] (start ids7 True)))
   \<and> frame (run Best [Advance, Settle 1 (ok_story 2)] (start ids7 True)) \<noteq> None
   \<and> loadMoreBestNews (run Best [Advance, Settle 1 (ok_story 2)] (start ids7 True))
       = run Best [Advance, Settle 1 (ok_story 2)] (start ids7 True)
   \<and> loadMoreLatestNews (run Best [Advance, Settle 1 (ok_story 2)] (start ids7 True))
       = run Best [Advance, Settle 1 (ok_story 2)] (start ids7 True)
   \<and> step Best Advance (run Best [Advance, Settle 1 (ok_story 2)] (start ids7 True))
       = run Best [Advance, Settle 1 (ok_story 2)] (start ids7 True)"
proof -
  have h: "newsLoading (globals (run Best [Advance, Settle 1 (ok_story 2)] (start ids7 True)))"
    by (simp add: eval_defs)
  have k: "frame (run Best [Advance, Settle 1 (ok_story 2)] (start ids7 True)) \<noteq> None"
    by (simp add: eval_defs)
  from h k advance_while_loading_noop[of "run Best [Advance, Settle 1 (ok_story 2)] (start ids7 True)"
      Best "[Advance, Settle 1 (ok_story 2)]" ids7 True]
  show ?thesis by blast
qed

text \<open>
  C6. Take a feed after its initialisation and any events (clicks, and answers of the
  transport in any order). Its cursor does not decrease when more events follow; it equals
  the number of batch fetches that have completed, whatever count each of them reported;
  and cursor times page size is at most the length of the id list plus page size minus one.
\<close>

theorem page_cursor_invariant:
  "newsPage (globals (run f evs (initializeNews f res btn)))
     \<le> newsPage (globals (run f evs' (run f evs (initializeNews f res btn))))
   \<and> newsPage (globals (run f evs (initializeNews f res btn)))
       = completed (run f evs (initializeNews f res btn))
   \<and> newsPage (globals (run f evs (initializeNews f res btn))) * ITEMS_PER_PAGE
       \<le> length (newsIds (globals (run f evs (initializeNews f res btn)))) + (ITEMS_PER_PAGE - 1)"
proof -
  let ?m = "run f evs (initializeNews f res btn)"
  let ?ids = "snd (fetchFromAPI (list_api f)) res"
  have i: "inv ?ids ?m" by (rule inv_run[OF inv_initialize])
  have i': "inv ?ids (run f evs' ?m)" by (rule inv_run[OF i])
  from i have 2: "newsPage (globals ?m) = completed ?m" by (simp add: inv_def completed_def)
  from i' have q2: "newsPage (globals (run f evs' ?m)) = completed (run f evs' ?m)"
    by (simp add: inv_def completed_def)
  from completed_mono[of ?m f evs'] 2 q2
  have 1: "newsPage (globals ?m) \<le> newsPage (globals (run f evs' ?m))" by simp
  from i have 3: "newsPage (globals ?m) * ITEMS_PER_PAGE \<le> length (newsIds (globals ?m)) + (ITEMS_PER_PAGE - 1)"
    by (auto simp: inv_def ITEMS_PER_PAGE_def)
  from 1 2 3 show ?thesis by blast
qed

text \<open>
  C1. Take a feed with an id list of length L from cursor 0 through any events. The number
  of its completed page loads, which is its cursor, never exceeds ceil(L / page size); the
  feed is exhausted (the guard \<open>cursor * pageSize >= length\<close> holds) exactly when that number
  is ceil(L / page size); and once it is exhausted a further \<open>loadMore...\<close> changes nothing,
  the list of requests sent included.
\<close>

theorem advance_calls_until_exhausted:
  "completed (run f evs (start ids btn)) \<le> (length ids + ITEMS_PER_PAGE - 1) div ITEMS_PER_PAGE
   \<and> newsPage (globals (run f evs (start ids btn))) = completed (run f evs (start ids btn))
   \<and> (exhausted (run f evs (start ids btn))
        \<longleftrightarrow> completed (run f evs (start ids btn)) = (length ids + ITEMS_PER_PAGE - 1) div ITEMS_PER_PAGE)
   \<and> (exhausted (run f evs (start ids btn))
        \<longrightarrow> step f Advance (run f evs (start ids btn)) = run f evs (start ids btn))"
proof -
  let ?m = "run f evs (start ids btn)"
  have i: "inv ids ?m" by (rule inv_run[OF inv_start])
  then have p: "newsPage (globals ?m) = completed ?m" and b: "newsPage (globals ?m) * 6 < length ids + 6"
    and n: "newsIds (globals ?m) = ids"
    by (auto simp: inv_def completed_def ITEMS_PER_PAGE_def)
  have 1: "completed ?m \<le> (length ids + ITEMS_PER_PAGE - 1) div ITEMS_PER_PAGE"
    using p b by (simp add: ITEMS_PER_PAGE_def)
  have 2: "exhausted ?m \<longleftrightarrow> completed ?m = (length ids + ITEMS_PER_PAGE - 1) div ITEMS_PER_PAGE"
    using p b n by (simp add: ITEMS_PER_PAGE_def exhausted_def) arith
  have 3: "exhausted ?m \<longrightarrow> step f Advance ?m = ?m"
    by (simp add: exhausted_def loadMoreNews_def)
  from 1 2 3 p show ?thesis by blast
qed

theorem advance_calls_until_exhausted_witness:
  "exhausted (run Best (page0 @ page1) (start ids7 False))
   \<and> completed (run Best (page0 @ page1) (start ids7 False)) = 2
   \<and> step Best Advance (run Best (page0 @ page1) (start ids7 False)) = run Best (page0 @ page1) (start ids7 False)
   \<and> \<not> exhausted (run Best page0 (start ids7 False))
   \<and> completed (run Best page0 (start ids7 False)) = 1"
proof -
  have e: "exhausted (run Best (page0 @ page1) (start ids7 False))"
    by (simp add: eval_defs)
  have n: "completed (run Best page0 (start ids7 False)) = 1"
    by (simp add: eval_defs)
  from e n advance_calls_until_exhausted[of Best "page0 @ page1" ids7 False]
    advance_calls_until_exhausted[of Best page0 ids7 False]
  show ?thesis
    by (simp add: ITEMS_PER_PAGE_def ids7_def)
qed

text \<open>
  C2, as the code has it. \<open>onBatchComplete\<close> runs inside the fetcher, before \<open>page++\<close>: at the
  step that completes a page the cursor goes up by one and the button is then displayed
  exactly if \<open>(cursor + 1) * pageSize < length\<close> for the cursor before that increment. So
  from the first completed page on, the button is hidden exactly if the cursor as it then
  stands times the page size, the number of ids attempted, reaches the length of the list.
\<close>

theorem exhaustion_signal_before_increment:
  "(newsPage (globals (step f e (run f evs (start ids btn)))) \<noteq> newsPage (globals (run f evs (start ids btn)))
      \<longrightarrow> newsPage (globals (step f e (run f evs (start ids btn)))) = newsPage (globals (run f evs (start ids btn))) + 1
        \<and> loadBtn (globals (step f e (run f evs (start ids btn))))
            = ((newsPage (globals (run f evs (start ids btn))) + 1) * ITEMS_PER_PAGE < length ids))
   \<and> (0 < newsPage (globals (run f evs (start ids btn)))
      \<longrightarrow> loadBtn (globals (run f evs (start ids btn)))
            = (newsPage (globals (run f evs (start ids btn))) * ITEMS_PER_PAGE < length ids))"
proof -
  let ?m = "run f evs (start ids btn)"
  have i: "inv ids ?m" by (rule inv_run[OF inv_start])
  have i': "inv ids (step f e ?m)" by (rule inv_step[OF i])
  from i have p: "newsPage (globals ?m) = completed ?m" by (simp add: inv_def completed_def)
  from i' have p': "newsPage (globals (step f e ?m)) = completed (step f e ?m)" by (simp add: inv_def completed_def)
  from completed_mono[of ?m f "[e]"] p p' have ge: "newsPage (globals ?m) \<le> newsPage (globals (step f e ?m))"
    by (simp add: run_def)
  from i have b: "0 < newsPage (globals ?m)
      \<longrightarrow> loadBtn (globals ?m) = (newsPage (globals ?m) * ITEMS_PER_PAGE < length ids)"
    by (simp add: inv_def)
  have a: "newsPage (globals (step f e ?m)) \<noteq> newsPage (globals ?m)
      \<longrightarrow> newsPage (globals (step f e ?m)) = newsPage (globals ?m) + 1
        \<and> loadBtn (globals (step f e ?m)) = ((newsPage (globals ?m) + 1) * ITEMS_PER_PAGE < length ids)"
  proof
    assume ne: "newsPage (globals (step f e ?m)) \<noteq> newsPage (globals ?m)"
    with ge step_page_le[of f e ?m] have s: "newsPage (globals (step f e ?m)) = newsPage (globals ?m) + 1" by simp
    with i' have "loadBtn (globals (step f e ?m)) = ((newsPage (globals ?m) + 1) * ITEMS_PER_PAGE < length ids)"
      by (simp add: inv_def)
    with s show "newsPage (globals (step f e ?m)) = newsPage (globals ?m) + 1
        \<and> loadBtn (globals (step f e ?m)) = ((newsPage (globals ?m) + 1) * ITEMS_PER_PAGE < length ids)" by simp
  qed
  from a b show ?thesis by blast
qed

theorem exhaustion_signal_before_increment_witness:
  "newsPage (globals (step Best (Settle 0 (ok_story 7)) (run Best (page0 @ [Advance]) (start ids7 False))))
     \<noteq> newsPage (globals (run Best (page0 @ [Advance]) (start ids7 False)))
   \<and> 0 < newsPage (globals (run Best (page0 @ [Advance]) (start ids7 False)))
   \<and> newsPage (globals (step Best (Settle 0 (ok_story 7)) (run Best (page0 @ [Advance]) (start ids7 False)))) = 2
   \<and> \<not> loadBtn (globals (step Best (Settle 0 (ok_story 7)) (run Best (page0 @ [Advance]) (start ids7 False))))
   \<and> loadBtn (globals (run Best (page0 @ [Advance]) (start ids7 False)))"
proof -
  have h1: "newsPage (globals (step Best (Settle 0 (ok_story 7)) (run Best (page0 @ [Advance]) (start ids7 False))))
     \<noteq> newsPage (globals (run Best (page0 @ [Advance]) (start ids7 False)))"
    by (simp add: eval_defs)
  have h2: "newsPage (globals (run Best (page0 @ [Advance]) (start ids7 False))) = 1"
    by (simp add: eval_defs)
  from h1 h2 exhaustion_signal_before_increment[of Best "Settle 0 (ok_story 7)" "page0 @ [Advance]" ids7 False]
  show ?thesis by (simp add: ITEMS_PER_PAGE_def ids7_def)
qed

text \<open>
  The claim as it is written, with the cursor read after its increment, fails after the first
  page of seven ids: the cursor is 1 and \<open>(1 + 1) * 6 >= 7\<close>, yet the button is displayed.
\<close>

theorem exhaustion_signal_counterexample:
  "newsPage (globals (load_page Best (\<lambda>i. i) (map ok_story [1, 2, 3, 4, 5, 6]) (start ids7 False))) = 1
   \<and> (newsPage (globals (load_page Best (\<lambda>i. i) (map ok_story [1, 2, 3, 4, 5, 6]) (start ids7 False))) + 1)
        * ITEMS_PER_PAGE
      \<ge> length (newsIds (globals (load_page Best (\<lambda>i. i) (map ok_story [1, 2, 3, 4, 5, 6]) (start ids7 False))))
   \<and> loadBtn (globals (load_page Best (\<lambda>i. i) (map ok_story [1, 2, 3, 4, 5, 6]) (start ids7 False)))"
  by (simp add: eval2_defs eval_defs)

section \<open>Claims on the batch fetcher\<close>

text \<open>
  C3. The fetcher is to call \<open>onBatchComplete\<close> exactly once, after all chunks, and to let no
  exception out. The script does not on a story that passes the check and has no title:
  \<open>escapeHTML\<close> is called on \<open>undefined\<close> and raises, the exception leaves
  \<open>fetchItemsWithConcurrency\<close> and \<open>loadMore...\<close>, and \<open>onBatchComplete\<close> is never called.
  For the feed, the cursor stays where it was, nothing is rendered, the loading flag stays
  set, and every later call of \<open>loadMore...\<close> returns at its guard.
\<close>

theorem fetch_batch_untitled_story:
  "fst (settled_batch (onItemFetched Latest) onBatchComplete backwards [2] [untitled] (globals (start [2] False)) [])
     = Threw TypeError
   \<and> done_calls (snd (snd (settled_batch (onItemFetched Latest) onBatchComplete backwards [2] [untitled]
        (globals (start [2] False)) []))) = []
   \<and> uncaught (load_page Latest backwards [untitled] (start [2] False)) = Some TypeError
   \<and> done_calls (calls (load_page Latest backwards [untitled] (start [2] False))) = []
   \<and> surface (globals (load_page Latest backwards [untitled] (start [2] False))) = []
   \<and> newsPage (globals (load_page Latest backwards [untitled] (start [2] False))) = 0
   \<and> newsLoading (globals (load_page Latest backwards [untitled] (start [2] False)))
   \<and> step Latest Advance (load_page Latest backwards [untitled] (start [2] False))
       = load_page Latest backwards [untitled] (start [2] False)"
  by (simp add: eval2_defs eval_defs)

text \<open>
  C9. Take a call of \<open>fetchItemsWithConcurrency\<close> on any ids and let answers come in as they
  may. The calls made so far pass the monitor: the requests of a chunk are sent only when
  nothing is in flight and every item that has arrived has been passed to \<open>onItemFetched\<close>,
  and the callbacks are called only when nothing is in flight. The requests in flight are
  the pending promises, and at every instant, that is after every prefix of the calls made,
  their number is between 0 and the cap of 3.
\<close>

theorem in_flight_bounded:
  "(\<exists>b w. watched (snd (snd (drive oi od answers (fetchItemsWithConcurrency ids oi od u []))))
         = Some (b, pending (fst (drive oi od answers (fetchItemsWithConcurrency ids oi od u []))), w))
   \<and> int (pending (fst (drive oi od answers (fetchItemsWithConcurrency ids oi od u []))))
       = in_flight (snd (snd (drive oi od answers (fetchItemsWithConcurrency ids oi od u []))))
   \<and> (\<forall>p. prefix p (snd (snd (drive oi od answers (fetchItemsWithConcurrency ids oi od u []))))
         \<longrightarrow> 0 \<le> in_flight p \<and> in_flight p \<le> int MAX_CONCURRENT_REQUESTS)"
proof -
  let ?cfg = "drive oi od answers (fetchItemsWithConcurrency ids oi od u [])"
  have "calm ?cfg" by (rule calm_drive[OF calm_call])
  from calm_watched[OF this] obtain b w where w: "watched (snd (snd ?cfg)) = Some (b, pending (fst ?cfg), w)"
    by blast
  from watch_count[OF w[unfolded watched_def]]
  have c: "int (pending (fst ?cfg)) = in_flight (snd (snd ?cfg))" by simp
  have p: "\<forall>p. prefix p (snd (snd ?cfg)) \<longrightarrow> 0 \<le> in_flight p \<and> in_flight p \<le> int MAX_CONCURRENT_REQUESTS"
  proof (intro allI impI)
    fix p assume "prefix p (snd (snd ?cfg))"
    from watch_prefix[OF w[unfolded watched_def] _ this]
    show "0 \<le> in_flight p \<and> in_flight p \<le> int MAX_CONCURRENT_REQUESTS" by simp
  qed
  from w c p show ?thesis by blast
qed

theorem in_flight_bounded_witness:
  "prefix [Fetch (ITEM_API 1), Fetch (ITEM_API 2), Fetch (ITEM_API 3)]
     (snd (snd (drive (onItemFetched Best) onBatchComplete some_answers
        (fetchItemsWithConcurrency [1, 2, 3, 4, 5] (onItemFetched Best) onBatchComplete (globals (start [1, 2, 3, 4, 5] False)) []))))
   \<and> in_flight [Fetch (ITEM_API 1), Fetch (ITEM_API 2), Fetch (ITEM_API 3)] = 3
   \<and> in_flight [Fetch (ITEM_API 1), Fetch (ITEM_API 2), Fetch (ITEM_API 3)] \<le> int MAX_CONCURRENT_REQUESTS"
proof -
  have h: "prefix [Fetch (ITEM_API 1), Fetch (ITEM_API 2), Fetch (ITEM_API 3)]
     (snd (snd (drive (onItemFetched Best) onBatchComplete some_answers
        (fetchItemsWithConcurrency [1, 2, 3, 4, 5] (onItemFetched Best) onBatchComplete (globals (start [1, 2, 3, 4, 5] False)) []))))"
    by (simp add: some_answers_def drive_def eval_defs)
  have v: "in_flight [Fetch (ITEM_API 1), Fetch (ITEM_API 2), Fetch (ITEM_API 3)] = 3"
    by (simp add: in_flight_def)
  from h v in_flight_bounded[of "onItemFetched Best" onBatchComplete some_answers "[1, 2, 3, 4, 5]" "globals (start [1, 2, 3, 4, 5] False)"]
  show ?thesis by blast
qed

section \<open>Claims on a page\<close>

text \<open>
  C7. Take a feed that is not loading and not exhausted, and let the transport answer every
  request of its next page under any latencies. The nodes appended to the surface are those
  of the results that are not absent and pass the check, in the order of their ids, up to
  the first on which the callback raises; \<open>onItemFetched\<close> has been called on the results
  that are not absent in the order of their ids, up to and including that one; and the
  calls of the page pass the monitor, so that the items of a chunk are passed once all its
  requests are answered and before the next chunk is asked for. None of this depends on
  the latencies.
\<close>

theorem render_order:
  assumes "\<not> newsLoading (globals m)" "\<not> exhausted m" "length rs = length (page_ids m)"
  shows "surface (globals (load_page f lat rs m))
           = surface (globals m) @ map (node_of f) (filter (valid f)
               (takeWhile (\<lambda>it. \<not> raises f it) (present (fetched (page_ids m) rs))))
       \<and> called_items (calls (load_page f lat rs m))
           = called_items (calls m) @ take (Suc (length (takeWhile (\<lambda>it. \<not> raises f it) (present (fetched (page_ids m) rs)))))
               (present (fetched (page_ids m) rs))
       \<and> watched (drop (length (calls m)) (calls (load_page f lat rs m))) \<noteq> None"
proof -
  let ?g1 = "(globals m)\<lparr>newsLoading := True\<rparr>"
  obtain st g' tr' where sb: "settled_batch (onItemFetched f) onBatchComplete lat (page_ids m) rs ?g1 [] = (st, g', tr')"
    by (cases "settled_batch (onItemFetched f) onBatchComplete lat (page_ids m) rs ?g1 []")
  from settled_batch_shift[of "onItemFetched f" onBatchComplete lat "page_ids m" rs ?g1 "calls m"] sb
    load_page_drive[OF assms(1,2), of f lat rs]
  have "calls (load_page f lat rs m) = calls m @ tr'" by (cases st) simp_all
  moreover from settled_batch_watched[of "onItemFetched f" onBatchComplete lat "page_ids m" rs ?g1] sb
  have "watched tr' \<noteq> None" by simp
  ultimately have 3: "watched (drop (length (calls m)) (calls (load_page f lat rs m))) \<noteq> None" by simp
  from page_loaded(1)[OF assms, of f lat] page_loaded(2)[OF assms, of f lat] 3 show ?thesis by blast
qed

theorem render_order_witness:
  "\<not> newsLoading (globals (start ids7 False)) \<and> \<not> exhausted (start ids7 False)
   \<and> length answers6 = length (page_ids (start ids7 False))
   \<and> surface (globals (load_page Best backwards answers6 (start ids7 False)))
       = [node_of Best (story 1 (Some ''A title'') (Some ''https://www.example.com/x'')),
          node_of Best (story 6 (Some ''A title'') (Some ''https://www.example.com/x''))]
   \<and> surface (globals (load_page Best (\<lambda>i. i) answers6 (start ids7 False)))
       = [node_of Best (story 1 (Some ''A title'') (Some ''https://www.example.com/x'')),
          node_of Best (story 6 (Some ''A title'') (Some ''https://www.example.com/x''))]"
proof -
  have h1: "\<not> newsLoading (globals (start ids7 False))" by (simp add: start_def)
  have h2: "\<not> exhausted (start ids7 False)" by (simp add: eval_defs)
  have h3: "length answers6 = length (page_ids (start ids7 False))" by (simp add: eval2_defs eval_defs)
  have v: "map (node_of Best) (filter (valid Best)
               (takeWhile (\<lambda>it. \<not> raises Best it) (present (fetched (page_ids (start ids7 False)) answers6))))
       = [node_of Best (story 1 (Some ''A title'') (Some ''https://www.example.com/x'')),
          node_of Best (story 6 (Some ''A title'') (Some ''https://www.example.com/x''))]"
    by (simp add: eval2_defs eval_defs)
  have s: "surface (globals (start ids7 False)) = []" by (simp add: start_def)
  from render_order[OF h1 h2 h3, of Best backwards] render_order[OF h1 h2 h3, of Best "\<lambda>i. i"] h1 h2 h3 v s
  show ?thesis by simp
qed

text \<open>
  C4, as the code has it. On an item that has a title, \<open>onItemFetched\<close> appends the node and
  returns true if the check passes, and returns false and leaves the surface alone if not.
  The check passes exactly for the type \<open>story\<close> with a URL that is present and not the empty
  string and, for the latest feed, a score (0 if absent) of at least the threshold. An item
  that fails the check is never rendered, whatever its title. When a feed loads a page on
  which every item that passes the check has a title, the nodes appended are those of the
  items that pass, \<open>onBatchComplete\<close> is called with their number, and the cursor goes up by
  one, however many items fail.
\<close>

theorem validate_then_render:
  "(item_title it \<noteq> None \<longrightarrow>
      onItemFetched f it g =
        (if valid f it then (Inr True, g\<lparr>surface := surface g @ [node_of f it]\<rparr>) else (Inr False, g)))
   \<and> (valid f it \<longleftrightarrow>
        item_type it = ''story'' \<and> (\<exists>u. item_url it = Some u \<and> u \<noteq> [])
        \<and> (f = Latest \<longrightarrow> (case item_score it of None \<Rightarrow> 0 | Some sc \<Rightarrow> sc) \<ge> MIN_SCORE_LATEST))
   \<and> (\<not> valid f it \<longrightarrow> onItemFetched f it g = (Inr False, g))
   \<and> (\<not> newsLoading (globals m) \<and> \<not> exhausted m \<and> length rs = length (page_ids m)
        \<and> (\<forall>x\<in>set (present (fetched (page_ids m) rs)). valid f x \<longrightarrow> item_title x \<noteq> None) \<longrightarrow>
        surface (globals (load_page f lat rs m))
          = surface (globals m) @ map (node_of f) (filter (valid f) (present (fetched (page_ids m) rs)))
        \<and> done_calls (calls (load_page f lat rs m))
          = done_calls (calls m) @ [length (filter (valid f) (present (fetched (page_ids m) rs)))]
        \<and> newsPage (globals (load_page f lat rs m)) = newsPage (globals m) + 1
        \<and> \<not> newsLoading (globals (load_page f lat rs m)))"
proof -
  have 1: "item_title it \<noteq> None \<longrightarrow>
      onItemFetched f it g =
        (if valid f it then (Inr True, g\<lparr>surface := surface g @ [node_of f it]\<rparr>) else (Inr False, g))"
    by (simp add: onItemFetched_cases)
  have 2: "valid f it \<longleftrightarrow>
        item_type it = ''story'' \<and> (\<exists>u. item_url it = Some u \<and> u \<noteq> [])
        \<and> (f = Latest \<longrightarrow> (case item_score it of None \<Rightarrow> 0 | Some sc \<Rightarrow> sc) \<ge> MIN_SCORE_LATEST)"
    by (cases f) (auto simp: truthy_def split: option.splits)
  have 3: "\<not> valid f it \<longrightarrow> onItemFetched f it g = (Inr False, g)"
    by (simp add: onItemFetched_cases)
  have 4: "\<not> newsLoading (globals m) \<and> \<not> exhausted m \<and> length rs = length (page_ids m)
        \<and> (\<forall>x\<in>set (present (fetched (page_ids m) rs)). valid f x \<longrightarrow> item_title x \<noteq> None) \<longrightarrow>
        surface (globals (load_page f lat rs m))
          = surface (globals m) @ map (node_of f) (filter (valid f) (present (fetched (page_ids m) rs)))
        \<and> done_calls (calls (load_page f lat rs m))
          = done_calls (calls m) @ [length (filter (valid f) (present (fetched (page_ids m) rs)))]
        \<and> newsPage (globals (load_page f lat rs m)) = newsPage (globals m) + 1
        \<and> \<not> newsLoading (globals (load_page f lat rs m))"
  proof (intro impI, elim conjE)
    assume a: "\<not> newsLoading (globals m)" "\<not> exhausted m" "length rs = length (page_ids m)"
      and t: "\<forall>x\<in>set (present (fetched (page_ids m) rs)). valid f x \<longrightarrow> item_title x \<noteq> None"
    from t have nr: "\<forall>it\<in>set (present (fetched (page_ids m) rs)). \<not> raises f it" by (simp add: raises_def)
    have tw: "takeWhile (\<lambda>it. \<not> raises f it) (present (fetched (page_ids m) rs)) = present (fetched (page_ids m) rs)"
      by (rule takeWhile_all[OF nr])
    from page_loaded(1)[OF a, of f lat, unfolded tw] page_loaded(3)[OF a nr, of lat]
    show "surface (globals (load_page f lat rs m))
          = surface (globals m) @ map (node_of f) (filter (valid f) (present (fetched (page_ids m) rs)))
        \<and> done_calls (calls (load_page f lat rs m))
          = done_calls (calls m) @ [length (filter (valid f) (present (fetched (page_ids m) rs)))]
        \<and> newsPage (globals (load_page f lat rs m)) = newsPage (globals m) + 1
        \<and> \<not> newsLoading (globals (load_page f lat rs m))"
      by simp
  qed
  from 1 2 3 4 show ?thesis by blast
qed

theorem validate_then_render_witness:
  "item_title (story 3 (Some ''Ask'') (Some [])) \<noteq> None
   \<and> \<not> valid Latest (story 3 (Some ''Ask'') (Some []))
   \<and> onItemFetched Latest (story 3 (Some ''Ask'') (Some [])) (globals (start ids7 False))
       = (Inr False, globals (start ids7 False))
   \<and> \<not> newsLoading (globals (start ids7 False)) \<and> \<not> exhausted (start ids7 False)
   \<and> length answers6 = length (page_ids (start ids7 False))
   \<and> length (surface (globals (load_page Latest backwards answers6 (start ids7 False)))) = 2
   \<and> done_calls (calls (load_page Latest backwards answers6 (start ids7 False))) = [2]
   \<and> newsPage (globals (load_page Latest backwards answers6 (start ids7 False))) = 1"
proof -
  have t: "item_title (story 3 (Some ''Ask'') (Some [])) \<noteq> None" by (simp add: story_def)
  have n: "\<not> valid Latest (story 3 (Some ''Ask'') (Some []))" by (simp add: story_def truthy_def)
  have h1: "\<not> newsLoading (globals (start ids7 False))" by (simp add: start_def)
  have h2: "\<not> exhausted (start ids7 False)" by (simp add: eval_defs)
  have h3: "length answers6 = length (page_ids (start ids7 False))" by (simp add: eval2_defs eval_defs)
  have h4: "\<forall>x\<in>set (present (fetched (page_ids (start ids7 False)) answers6)). valid Latest x \<longrightarrow> item_title x \<noteq> None"
    by (simp add: eval2_defs eval_defs)
  have v: "length (filter (valid Latest) (present (fetched (page_ids (start ids7 False)) answers6))) = 2"
    by (simp add: eval2_defs eval_defs)
  have s: "surface (globals (start ids7 False)) = []" "done_calls (calls (start ids7 False)) = []"
    "newsPage (globals (start ids7 False)) = 0"
    by (simp_all add: start_def)
  from validate_then_render[of "story 3 (Some ''Ask'') (Some [])" Latest "globals (start ids7 False)" "start ids7 False" answers6 backwards]
    t n h1 h2 h3 h4 v s
  show ?thesis by simp
qed

text \<open>
  The claim as it is written fails on a story of the latest feed whose URL is present and
  empty, which is not rendered, and on a story with a URL and no title, on which the
  callback raises instead of returning true.
\<close>

theorem validate_then_render_counterexample:
  "item_type (story 3 (Some ''Ask'') (Some [])) = ''story''
   \<and> item_url (story 3 (Some ''Ask'') (Some [])) \<noteq> None
   \<and> (case item_score (story 3 (Some ''Ask'') (Some [])) of None \<Rightarrow> 0 | Some sc \<Rightarrow> sc) \<ge> MIN_SCORE_LATEST
   \<and> onItemFetched Latest (story 3 (Some ''Ask'') (Some [])) (globals (start ids7 False))
       = (Inr False, globals (start ids7 False))
   \<and> item_type (story 2 None (Some ''https://www.example.com/y'')) = ''story''
   \<and> item_url (story 2 None (Some ''https://www.example.com/y'')) \<noteq> None
   \<and> onItemFetched Best (story 2 None (Some ''https://www.example.com/y'')) (globals (start ids7 False))
       = (Inl TypeError, globals (start ids7 False))"
  by (simp add: story_def truthy_def MIN_SCORE_LATEST_def onItemFetchedLatest_def onItemFetchedBest_def
      renderBestNewsItem_def escapeHTML_def)

end
